theory Spec2Isabelle
  imports Main "HOL-Library.List_Lexorder" "HOL-Library.Char_ord" "HOL-Library.Multiset"
begin

section \<open>Data model of \<open>src/main.cpp\<close>\<close>

text \<open>
  The contest scoreboard of \<open>main.cpp\<close>: \<open>struct Submission\<close>, \<open>struct ProblemStatus\<close>,
  \<open>struct Team\<close> and the private members of \<open>class ICPCSystem\<close>.

  \<^item> \<open>std::string\<close> is \<open>string\<close>; \<open>operator<\<close> on \<open>std::string\<close> compares bytes as unsigned
    values, lexicographically, which is the order of \<open>List_Lexorder\<close> over \<open>Char_ord\<close>.
  \<^item> \<open>int\<close> is modelled by the unbounded \<open>int\<close>: signed overflow is undefined behaviour in C++,
    so the model describes the runs where no counter or penalty sum leaves the 32-bit range
    (\<open>int32\<close>, \<open>stats_in_range\<close>).
  \<^item> \<open>std::map<string, V>\<close> is an association list kept in ascending key order, the order in
    which the source iterates it.
\<close>

record Submission =
  problem :: string
  status :: string
  time :: int
  before_freeze :: bool

record ProblemStatus =
  solved :: bool
  solve_time :: int
  wrong_attempts_before_first_success :: int
  wrong_attempts_before_freeze :: int
  submissions_after_freeze :: int
  frozen :: bool

text \<open>The default constructor \<open>ProblemStatus()\<close>.\<close>

definition ProblemStatus_init :: ProblemStatus where
  "ProblemStatus_init =
     \<lparr>solved = False, solve_time = 0, wrong_attempts_before_first_success = 0,
      wrong_attempts_before_freeze = 0, submissions_after_freeze = 0, frozen = False\<rparr>"

subsection \<open>\<open>std::map\<close>\<close>

type_synonym 'v std_map = "(string \<times> 'v) list"

text \<open>\<open>m.count(k)\<close> and the read of an entry.\<close>

definition map_count :: "'v std_map \<Rightarrow> string \<Rightarrow> nat" where
  "map_count m k = (case map_of m k of None \<Rightarrow> 0 | Some _ \<Rightarrow> 1)"

text \<open>The write \<open>m[k] = v\<close>: replaces the entry of \<open>k\<close>, or inserts it at its place in key order.\<close>

fun map_set :: "string \<Rightarrow> 'v \<Rightarrow> 'v std_map \<Rightarrow> 'v std_map" where
  "map_set k v [] = [(k, v)]"
| "map_set k v ((k', v') # m) =
     (if k = k' then (k, v) # m
      else if k < k' then (k, v) # (k', v') # m
      else (k', v') # map_set k v m)"

text \<open>
  \<open>m[k]\<close> value-initialises a missing entry. \<open>map_at d m k\<close> is the value \<open>m[k]\<close> refers to
  (\<open>d\<close> the default-constructed value) and \<open>map_touch d m k\<close> is the map after the access.
\<close>

definition map_at :: "'v \<Rightarrow> 'v std_map \<Rightarrow> string \<Rightarrow> 'v" where
  "map_at d m k = (case map_of m k of None \<Rightarrow> d | Some v \<Rightarrow> v)"

definition map_touch :: "'v \<Rightarrow> 'v std_map \<Rightarrow> string \<Rightarrow> 'v std_map" where
  "map_touch d m k = (case map_of m k of None \<Rightarrow> map_set k d m | Some _ \<Rightarrow> m)"

subsection \<open>Teams and the system state\<close>

text \<open>
  \<open>struct Team\<close>. Its members \<open>solved_count\<close>, \<open>penalty_time\<close> and \<open>solve_times\<close> are scratch
  outputs of \<open>calculate_team_stats\<close>: every read of them in the source comes right after a call
  that overwrites all three, so they are modelled as the result of that function
  (record \<open>stats\<close>) and not as part of the stored state.
\<close>

record Team =
  name :: string
  problems :: "ProblemStatus std_map"
  submissions :: "Submission list"
  ranking :: int

text \<open>The default constructor \<open>Team()\<close>.\<close>

definition Team_init :: Team where
  "Team_init = \<lparr>name = [], problems = [], submissions = [], ranking = 0\<rparr>"

record stats =
  solved_count :: int
  penalty_time :: int
  solve_times :: "int list"

record system =
  teams :: "Team std_map"
  team_order :: "string list"
  competition_started :: bool
  is_frozen :: bool
  duration_time :: int
  problem_count :: int
  problem_names :: "string list"
  freeze_time :: int

text \<open>The constructor \<open>ICPCSystem()\<close>.\<close>

definition system_init :: system where
  "system_init =
     \<lparr>teams = [], team_order = [], competition_started = False, is_frozen = False,
      duration_time = 0, problem_count = 0, problem_names = [], freeze_time = 0\<rparr>"

text \<open>The expressions \<open>teams[n]\<close> and \<open>team.problems[p]\<close> as values.\<close>

abbreviation team_at :: "Team std_map \<Rightarrow> string \<Rightarrow> Team" where
  "team_at \<equiv> map_at Team_init"

abbreviation status_at :: "ProblemStatus std_map \<Rightarrow> string \<Rightarrow> ProblemStatus" where
  "status_at \<equiv> map_at ProblemStatus_init"

datatype error =
    AddStarted | AddDuplicate | StartStarted | FreezeFrozen | ScrollNotFrozen
  | RankingNoTeam | SubmissionNoTeam

section \<open>Registration, start and submission\<close>

definition add_team :: "string \<Rightarrow> system \<Rightarrow> error + system" where
  "add_team team_name s =
     (if competition_started s then Inl AddStarted
      else if map_count (teams s) team_name \<noteq> 0 then Inl AddDuplicate
      else Inr (s\<lparr>teams := map_set team_name (Team_init\<lparr>name := team_name\<rparr>) (teams s),
                  team_order := team_order s @ [team_name]\<rparr>))"

text \<open>
  \<open>flush_scoreboard\<close>'s and \<open>start_competition\<close>'s loop
  \<open>for i: teams[sorted_teams[i]].ranking = i + 1\<close>, started at index \<open>i\<close>.
\<close>

fun assign_ranks :: "int \<Rightarrow> string list \<Rightarrow> Team std_map \<Rightarrow> Team std_map" where
  "assign_ranks i [] T = T"
| "assign_ranks i (n # ns) T =
     assign_ranks (i + 1) ns (map_set n ((team_at T n)\<lparr>ranking := i + 1\<rparr>) T)"

text \<open>
  \<open>string(1, 'A' + i)\<close>: the sum is an \<open>int\<close>, narrowed to a \<open>char\<close> (modulo 256 on the usual
  targets, as \<open>char_of\<close> does).
\<close>

definition start_competition :: "int \<Rightarrow> int \<Rightarrow> system \<Rightarrow> error + system" where
  "start_competition duration probs s =
     (if competition_started s then Inl StartStarted
      else Inr (s\<lparr>competition_started := True,
                  duration_time := duration,
                  problem_count := probs,
                  problem_names :=
                    problem_names s @ map (\<lambda>i. [char_of (65 + i)]) [0 ..< nat probs],
                  teams := assign_ranks 0 (sort (team_order s)) (teams s)\<rparr>))"

text \<open>The update of the \<open>ProblemStatus\<close> in \<open>submit\<close> (lines 198 to 215).\<close>

definition submit_status :: "bool \<Rightarrow> string \<Rightarrow> int \<Rightarrow> ProblemStatus \<Rightarrow> ProblemStatus" where
  "submit_status frz st tm ps =
     (if frz then
        (if \<not> solved ps
         then ps\<lparr>frozen := True, submissions_after_freeze := submissions_after_freeze ps + 1\<rparr>
         else ps)
      else
        (if \<not> solved ps then
           (if st = ''Accepted''
            then ps\<lparr>solved := True, solve_time := tm,
                    wrong_attempts_before_first_success := wrong_attempts_before_freeze ps\<rparr>
            else ps\<lparr>wrong_attempts_before_freeze := wrong_attempts_before_freeze ps + 1\<rparr>)
         else ps))"

definition submit :: "string \<Rightarrow> string \<Rightarrow> string \<Rightarrow> int \<Rightarrow> system \<Rightarrow> system" where
  "submit prob team_name st tm s =
     (let team = team_at (teams s) team_name;
          ps = status_at (problems team) prob;
          sub = \<lparr>problem = prob, status = st, time = tm, before_freeze = \<not> is_frozen s\<rparr>;
          team' = team\<lparr>submissions := submissions team @ [sub],
                       problems := map_set prob (submit_status (is_frozen s) st tm ps)
                                     (problems team)\<rparr>
      in s\<lparr>teams := map_set team_name team' (teams s)\<rparr>)"

definition freeze :: "system \<Rightarrow> error + system" where
  "freeze s =
     (if is_frozen s then Inl FreezeFrozen
      else Inr (s\<lparr>is_frozen := True, freeze_time := 0\<rparr>))"

section \<open>Queries\<close>

text \<open>\<open>query_ranking\<close>: the warning flag and the printed rank.\<close>

definition query_ranking :: "string \<Rightarrow> system \<Rightarrow> error + (bool \<times> int)" where
  "query_ranking team_name s =
     (if map_count (teams s) team_name = 0 then Inl RankingNoTeam
      else Inr (is_frozen s, ranking (team_at (teams s) team_name)))"

text \<open>The test in the body of the loop of \<open>query_submission\<close>.\<close>

definition sub_match :: "string \<Rightarrow> string \<Rightarrow> Submission \<Rightarrow> bool" where
  "sub_match prob st sub =
     (\<not> (prob \<noteq> ''ALL'' \<and> problem sub \<noteq> prob) \<and> \<not> (st \<noteq> ''ALL'' \<and> status sub \<noteq> st))"

text \<open>
  \<open>query_submission\<close>: the loop runs \<open>i\<close> from \<open>size - 1\<close> down to \<open>0\<close> and stops at the first
  match. \<open>Inr None\<close> is the line \<open>Cannot find any submission.\<close>
\<close>

definition query_submission ::
    "string \<Rightarrow> string \<Rightarrow> string \<Rightarrow> system \<Rightarrow> error + Submission option" where
  "query_submission team_name prob st s =
     (if map_count (teams s) team_name = 0 then Inl SubmissionNoTeam
      else Inr (find (sub_match prob st) (rev (submissions (team_at (teams s) team_name)))))"

section \<open>Statistics and the comparison of teams\<close>

text \<open>The condition of line 59: the problem counts under the visibility mode.\<close>

definition counted :: "bool \<Rightarrow> ProblemStatus \<Rightarrow> bool" where
  "counted include_frozen ps = (solved ps \<and> (\<not> frozen ps \<or> include_frozen))"

text \<open>The loop of \<open>calculate_team_stats\<close> over \<open>team.problems\<close>, in key order.\<close>

fun stats_loop :: "bool \<Rightarrow> ProblemStatus std_map \<Rightarrow> stats \<Rightarrow> stats" where
  "stats_loop include_frozen [] st = st"
| "stats_loop include_frozen ((k, ps) # m) st =
     stats_loop include_frozen m
       (if counted include_frozen ps
        then st\<lparr>solved_count := solved_count st + 1,
                penalty_time := penalty_time st
                                + (solve_time ps + 20 * wrong_attempts_before_first_success ps),
                solve_times := solve_times st @ [solve_time ps]\<rparr>
        else st)"

text \<open>
  \<open>calculate_team_stats\<close>. \<open>sort(rbegin, rend)\<close> sorts the reversed view ascending, so the
  vector ends descending.
\<close>

definition calculate_team_stats :: "Team \<Rightarrow> bool \<Rightarrow> stats" where
  "calculate_team_stats team include_frozen =
     (let st = stats_loop include_frozen (problems team)
                 \<lparr>solved_count = 0, penalty_time = 0, solve_times = []\<rparr>
      in st\<lparr>solve_times := rev (sort (solve_times st))\<rparr>)"

text \<open>
  The loop of lines 84 to 88 over the indices below both sizes: \<open>Some b\<close> when it returns \<open>b\<close>
  at the first index where the two vectors differ, \<open>None\<close> when it runs to its end.
\<close>

fun first_diff :: "int list \<Rightarrow> int list \<Rightarrow> bool option" where
  "first_diff (x # xs) (y # ys) = (if x \<noteq> y then Some (x < y) else first_diff xs ys)"
| "first_diff _ _ = None"

text \<open>
  \<open>compare_teams\<close>. The two names the source passes are always keys of \<open>teams\<close> (they come from
  \<open>team_order\<close>), so the accesses \<open>teams[name]\<close> insert nothing.
\<close>

definition compare_teams :: "Team std_map \<Rightarrow> string \<Rightarrow> string \<Rightarrow> bool \<Rightarrow> bool" where
  "compare_teams T name1 name2 include_frozen =
     (let t1 = calculate_team_stats (team_at T name1) include_frozen;
          t2 = calculate_team_stats (team_at T name2) include_frozen
      in if solved_count t1 \<noteq> solved_count t2 then solved_count t1 > solved_count t2
         else if penalty_time t1 \<noteq> penalty_time t2 then penalty_time t1 < penalty_time t2
         else (case first_diff (solve_times t1) (solve_times t2) of
                 Some b \<Rightarrow> b
               | None \<Rightarrow> name1 < name2))"

subsection \<open>The range of \<open>int\<close>\<close>

text \<open>
  The values of a 32-bit \<open>int\<close>. \<open>range_loop\<close> follows the loop of \<open>calculate_team_stats\<close>
  and tells whether every operand and every result of its arithmetic is such a value;
  \<open>stats_in_range\<close> is that test for a call of \<open>calculate_team_stats\<close>. Where it holds, no
  operation of the call overflows, and the source computes the numbers of \<open>stats_loop\<close>.
\<close>

definition int32 :: "int \<Rightarrow> bool" where
  "int32 x = (- (2 ^ 31) \<le> x \<and> x < 2 ^ 31)"

fun range_loop :: "bool \<Rightarrow> ProblemStatus std_map \<Rightarrow> stats \<Rightarrow> bool" where
  "range_loop include_frozen [] st = True"
| "range_loop include_frozen ((k, ps) # m) st =
     ((counted include_frozen ps \<longrightarrow>
         int32 (solve_time ps) \<and> int32 (wrong_attempts_before_first_success ps)
         \<and> int32 (solved_count st + 1)
         \<and> int32 (20 * wrong_attempts_before_first_success ps)
         \<and> int32 (solve_time ps + 20 * wrong_attempts_before_first_success ps)
         \<and> int32 (penalty_time st
                    + (solve_time ps + 20 * wrong_attempts_before_first_success ps)))
      \<and> range_loop include_frozen m (stats_loop include_frozen [(k, ps)] st))"

definition stats_in_range :: "Team \<Rightarrow> bool \<Rightarrow> bool" where
  "stats_in_range team include_frozen =
     range_loop include_frozen (problems team)
       \<lparr>solved_count = 0, penalty_time = 0, solve_times = []\<rparr>"

section \<open>The ranking pass\<close>

text \<open>
  \<open>std::sort\<close> with a comparator. The standard leaves the algorithm open; for a comparator
  that is a strict total order on the elements, as \<open>compare_teams\<close> is on distinct names, there
  is one sorted arrangement only (lemma \<open>std_sort_unique\<close>), and insertion sort computes it.
\<close>

fun sort_insert :: "('a \<Rightarrow> 'a \<Rightarrow> bool) \<Rightarrow> 'a \<Rightarrow> 'a list \<Rightarrow> 'a list" where
  "sort_insert lt x [] = [x]"
| "sort_insert lt x (y # ys) = (if lt x y then x # y # ys else y # sort_insert lt x ys)"

fun std_sort :: "('a \<Rightarrow> 'a \<Rightarrow> bool) \<Rightarrow> 'a list \<Rightarrow> 'a list" where
  "std_sort lt [] = []"
| "std_sort lt (x # xs) = sort_insert lt x (std_sort lt xs)"

text \<open>The vector \<open>sorted_teams\<close> of \<open>flush_scoreboard\<close>, \<open>print_scoreboard\<close> and \<open>scroll\<close>.\<close>

definition sorted_teams :: "system \<Rightarrow> string list" where
  "sorted_teams s = std_sort (\<lambda>a b. compare_teams (teams s) a b False) (team_order s)"

definition flush_scoreboard :: "system \<Rightarrow> system" where
  "flush_scoreboard s = s\<lparr>teams := assign_ranks 0 (sorted_teams s) (teams s)\<rparr>"

section \<open>The scoreboard listing\<close>

text \<open>\<open>operator<<\<close> on an \<open>int\<close>: decimal digits, with a minus sign when negative.\<close>

definition digit_char :: "nat \<Rightarrow> char" where
  "digit_char n = ''0123456789'' ! n"

function digits_of :: "nat \<Rightarrow> string" where
  "digits_of n = (if n < 10 then [digit_char n] else digits_of (n div 10) @ [digit_char (n mod 10)])"
  by pat_completeness auto
termination
  by (relation "measure id") auto

definition show_int :: "int \<Rightarrow> string" where
  "show_int i = (if i < 0 then CHR ''-'' # digits_of (nat (- i)) else digits_of (nat i))"

text \<open>One cell of a row (lines 119 to 140).\<close>

definition print_cell :: "ProblemStatus std_map \<Rightarrow> string \<Rightarrow> string" where
  "print_cell P pname =
     (if map_count P pname \<noteq> 0 then
        (let ps = status_at P pname in
         if frozen ps then
           (if wrong_attempts_before_freeze ps = 0 then [] else ''-'')
           @ show_int (wrong_attempts_before_freeze ps) @ ''/''
           @ show_int (submissions_after_freeze ps)
         else if solved ps then
           ''+'' @ (if wrong_attempts_before_first_success ps > 0
                    then show_int (wrong_attempts_before_first_success ps) else [])
         else
           (let wrong = wrong_attempts_before_freeze ps in
            if wrong = 0 then ''.'' else ''-'' @ show_int wrong))
      else ''.'')"

definition print_row :: "Team std_map \<Rightarrow> string list \<Rightarrow> string \<Rightarrow> string" where
  "print_row T pnames team_name =
     (let team = team_at T team_name;
          st = calculate_team_stats team False
      in team_name @ '' '' @ show_int (ranking team) @ '' '' @ show_int (solved_count st)
         @ '' '' @ show_int (penalty_time st)
         @ concat (map (\<lambda>pname. '' '' @ print_cell (problems team) pname) pnames))"

definition print_scoreboard :: "system \<Rightarrow> string list" where
  "print_scoreboard s = map (print_row (teams s) (problem_names s)) (sorted_teams s)"

section \<open>Scroll\<close>

text \<open>The test \<open>has_frozen\<close> of lines 270 to 276.\<close>

definition has_frozen :: "Team \<Rightarrow> bool" where
  "has_frozen team = list_ex (\<lambda>pp. frozen (snd pp)) (problems team)"

text \<open>
  The search of lines 267 to 281, given the names from the last of \<open>sorted_teams\<close> to the
  first; the empty string when no team has a frozen problem.
\<close>

fun find_lowest :: "Team std_map \<Rightarrow> string list \<Rightarrow> string" where
  "find_lowest T [] = []"
| "find_lowest T (n # ns) = (if has_frozen (team_at T n) then n else find_lowest T ns)"

text \<open>
  The search of lines 287 to 293. The test \<open>team.problems[pname].frozen\<close> creates the entry of
  \<open>pname\<close> when the team has none, so the map is returned too.
\<close>

fun find_unfreeze ::
    "string list \<Rightarrow> ProblemStatus std_map \<Rightarrow> string \<times> ProblemStatus std_map" where
  "find_unfreeze [] P = ([], P)"
| "find_unfreeze (pname # pnames) P =
     (let P' = map_touch ProblemStatus_init P pname
      in if frozen (status_at P' pname) then (pname, P') else find_unfreeze pnames P')"

text \<open>The loop of lines 303 to 315 over \<open>team.submissions\<close>.\<close>

fun replay :: "string \<Rightarrow> Submission list \<Rightarrow> ProblemStatus \<Rightarrow> int \<Rightarrow> ProblemStatus \<times> int" where
  "replay p [] ps additional = (ps, additional)"
| "replay p (sub # subs) ps additional =
     (if problem sub = p \<and> \<not> before_freeze sub then
        (if \<not> solved ps then
           (if status sub = ''Accepted''
            then replay p subs
                   (ps\<lparr>solved := True, solve_time := time sub,
                       wrong_attempts_before_first_success :=
                         wrong_attempts_before_freeze ps + additional\<rparr>)
                   additional
            else replay p subs ps (additional + 1))
         else replay p subs ps additional)
      else replay p subs ps additional)"

text \<open>Lines 298 to 319: the reveal of the status \<open>ps0 = team.problems[unfreeze_problem]\<close>.\<close>

definition reveal :: "string \<Rightarrow> Submission list \<Rightarrow> ProblemStatus \<Rightarrow> ProblemStatus" where
  "reveal p subs ps0 =
     (case replay p subs (ps0\<lparr>frozen := False\<rparr>) 0 of
        (ps, additional) \<Rightarrow>
          if \<not> solved ps
          then ps\<lparr>wrong_attempts_before_freeze := wrong_attempts_before_freeze ps + additional\<rparr>
          else ps)"

text \<open>The map \<open>old_rankings\<close> of lines 322 to 325.\<close>

definition old_rankings_of :: "Team std_map \<Rightarrow> string list \<Rightarrow> int std_map" where
  "old_rankings_of T names = foldl (\<lambda>m n. map_set n (ranking (team_at T n)) m) [] names"

text \<open>The line printed at a rank change (lines 345 and 346).\<close>

record notification =
  moved_team :: string
  replaced_team :: string
  new_solved :: int
  new_penalty :: int

definition render_notification :: "notification \<Rightarrow> string" where
  "render_notification n =
     moved_team n @ '' '' @ replaced_team n @ '' '' @ show_int (new_solved n)
     @ '' '' @ show_int (new_penalty n)"

text \<open>The team and the problem that one iteration of the loop reveals.\<close>

definition lowest_team :: "system \<Rightarrow> string" where
  "lowest_team s = find_lowest (teams s) (rev (sorted_teams s))"

definition unfreeze_problem :: "system \<Rightarrow> string" where
  "unfreeze_problem s =
     fst (find_unfreeze (problem_names s) (problems (team_at (teams s) (lowest_team s))))"

text \<open>Lines 286 to 319: the registry after the reveal, before the ranking pass.\<close>

definition revealed_teams :: "system \<Rightarrow> Team std_map" where
  "revealed_teams s =
     (let team = team_at (teams s) (lowest_team s);
          (p, P1) = find_unfreeze (problem_names s) (problems team);
          ps = reveal p (submissions team) (status_at P1 p)
      in map_set (lowest_team s) (team\<lparr>problems := map_set p ps P1\<rparr>) (teams s))"

text \<open>
  One iteration of the \<open>while (true)\<close> loop of \<open>scroll\<close> (lines 259 to 348): \<open>None\<close> at the
  \<open>break\<close>, else the state after the iteration and the notification it printed, if any.
\<close>

definition scroll_step :: "system \<Rightarrow> (system \<times> notification option) option" where
  "scroll_step s =
     (if lowest_team s = [] then None
      else
        (let old_rank = ranking (team_at (teams s) (lowest_team s));
             T1 = revealed_teams s;
             old_rankings = old_rankings_of T1 (sorted_teams s);
             s2 = flush_scoreboard (s\<lparr>teams := T1\<rparr>);
             team2 = team_at (teams s2) (lowest_team s);
             new_rank = ranking team2
         in Some (s2,
              if new_rank < old_rank then
                Some \<lparr>moved_team = lowest_team s,
                      replaced_team =
                        (case find (\<lambda>n. map_at 0 old_rankings n = new_rank \<and> n \<noteq> lowest_team s)
                                (sorted_teams s) of
                           None \<Rightarrow> []
                         | Some n \<Rightarrow> n),
                      new_solved = solved_count (calculate_team_stats team2 False),
                      new_penalty = penalty_time (calculate_team_stats team2 False)\<rparr>
              else None)))"

text \<open>The loop; \<open>None\<close> when it never reaches its \<open>break\<close>.\<close>

partial_function (option) scroll_loop ::
    "system \<Rightarrow> notification list \<Rightarrow> (system \<times> notification list) option" where
  "scroll_loop s out =
     (case scroll_step s of
        None \<Rightarrow> Some (s, out)
      | Some (s', n) \<Rightarrow> scroll_loop s' (out @ (case n of None \<Rightarrow> [] | Some x \<Rightarrow> [x])))"

declare scroll_loop.simps [code]

text \<open>Lines 353 to 362, after the loop and the final listing.\<close>

definition reset_team :: "Team \<Rightarrow> Team" where
  "reset_team t =
     t\<lparr>problems := map (\<lambda>(k, ps). (k, ps\<lparr>submissions_after_freeze := 0\<rparr>)) (problems t)\<rparr>"

definition scroll_done :: "system \<Rightarrow> system" where
  "scroll_done s = s\<lparr>is_frozen := False, teams := map (\<lambda>(n, t). (n, reset_team t)) (teams s)\<rparr>"

text \<open>
  \<open>scroll\<close>: the first listing, the notifications, the final listing and the final state.
\<close>

definition scroll ::
    "system \<Rightarrow> (error + string list \<times> notification list \<times> string list \<times> system) option" where
  "scroll s =
     (if \<not> is_frozen s then Some (Inl ScrollNotFrozen)
      else
        (let s1 = flush_scoreboard s in
         case scroll_loop s1 [] of
           None \<Rightarrow> None
         | Some (s2, notes) \<Rightarrow>
             Some (Inr (print_scoreboard s1, notes, print_scoreboard s2, scroll_done s2))))"

section \<open>Event sequences\<close>

text \<open>
  The commands of \<open>main\<close> that change the state, and the dispatch of one command. A failed
  command prints its error and leaves the state as it was. \<open>QUERY_RANKING\<close> and
  \<open>QUERY_SUBMISSION\<close> only print. \<open>None\<close> is a \<open>scroll\<close> that does not return.
\<close>

datatype event =
    AddTeam string
  | Start int int
  | Submit string string string int
  | Flush
  | Freeze
  | Scroll

fun apply_event :: "event \<Rightarrow> system \<Rightarrow> system option" where
  "apply_event (AddTeam n) s = Some (case add_team n s of Inl e \<Rightarrow> s | Inr s' \<Rightarrow> s')"
| "apply_event (Start d k) s = Some (case start_competition d k s of Inl e \<Rightarrow> s | Inr s' \<Rightarrow> s')"
| "apply_event (Submit p n st tm) s = Some (submit p n st tm s)"
| "apply_event Flush s = Some (flush_scoreboard s)"
| "apply_event Freeze s = Some (case freeze s of Inl e \<Rightarrow> s | Inr s' \<Rightarrow> s')"
| "apply_event Scroll s =
     (case scroll s of
        None \<Rightarrow> None
      | Some (Inl e) \<Rightarrow> Some s
      | Some (Inr (before, notes, after, s')) \<Rightarrow> Some s')"

text \<open>
  The input the program is written for: team names are not empty, and \<open>submit\<close> is called
  with a registered team and a problem of the configured set.
\<close>

fun valid_event :: "system \<Rightarrow> event \<Rightarrow> bool" where
  "valid_event s (AddTeam n) = (n \<noteq> [])"
| "valid_event s (Submit p n st tm) = (p \<in> set (problem_names s) \<and> n \<in> set (team_order s))"
| "valid_event s (Start d k) = True"
| "valid_event s Flush = True"
| "valid_event s Freeze = True"
| "valid_event s Scroll = True"

fun run :: "event list \<Rightarrow> system \<Rightarrow> system option" where
  "run [] s = Some s"
| "run (e # es) s =
     (if valid_event s e
      then (case apply_event e s of None \<Rightarrow> None | Some s' \<Rightarrow> run es s')
      else None)"

definition reachable :: "system \<Rightarrow> bool" where
  "reachable s = (\<exists>es. run es system_init = Some s)"

section \<open>Strict total orders\<close>

text \<open>What \<open>std::sort\<close> needs of its comparator to fix the result: a strict total order.\<close>

definition strict_total :: "('a \<Rightarrow> 'a \<Rightarrow> bool) \<Rightarrow> bool" where
  "strict_total lt =
     ((\<forall>x. \<not> lt x x) \<and> (\<forall>x y z. lt x y \<longrightarrow> lt y z \<longrightarrow> lt x z)
      \<and> (\<forall>x y. x \<noteq> y \<longrightarrow> lt x y \<or> lt y x))"

section \<open>Reading the state\<close>

text \<open>The expressions \<open>teams[n].problems[p]\<close>, \<open>teams[n].submissions\<close> and \<open>teams[n].ranking\<close>.\<close>

definition status_of :: "system \<Rightarrow> string \<Rightarrow> string \<Rightarrow> ProblemStatus" where
  "status_of s n p = status_at (problems (team_at (teams s) n)) p"

definition history_of :: "system \<Rightarrow> string \<Rightarrow> Submission list" where
  "history_of s n = submissions (team_at (teams s) n)"

definition rank_of :: "system \<Rightarrow> string \<Rightarrow> int" where
  "rank_of s n = ranking (team_at (teams s) n)"

text \<open>
  The submissions of a history that pass the test of line 304, oldest first: those to problem
  \<open>p\<close> whose flag \<open>before_freeze\<close> is false. \<open>submit\<close> sets the flag (line 195) and nothing
  resets it, so these are the submissions to \<open>p\<close> made under any freeze, the present one or an
  earlier one that a \<open>scroll\<close> has ended.
\<close>

definition after_freeze_subs :: "string \<Rightarrow> Submission list \<Rightarrow> Submission list" where
  "after_freeze_subs p subs = filter (\<lambda>sub. problem sub = p \<and> \<not> before_freeze sub) subs"

section \<open>The reveal in the words of the specification\<close>

text \<open>
  The frozen window, as the specification has it: the submissions made during the present
  freeze, which a \<open>FREEZE\<close> command opens and the next \<open>SCROLL\<close> ends. \<open>window_walk fr w es\<close>
  goes through the commands \<open>es\<close>, \<open>fr\<close> telling whether the board is frozen and \<open>w\<close> being
  the submissions of the open window, each with the name of its team; a \<open>FREEZE\<close> on a frozen
  board and a \<open>SCROLL\<close> on a board that is not frozen are errors and change nothing.
  \<open>spec_frozen_window es n p\<close> is the frozen window of team \<open>n\<close> and problem \<open>p\<close> after the
  commands \<open>es\<close>, oldest first.
\<close>

fun window_walk ::
    "bool \<Rightarrow> (string \<times> Submission) list \<Rightarrow> event list \<Rightarrow> (string \<times> Submission) list" where
  "window_walk fr w [] = w"
| "window_walk fr w (Freeze # es) = window_walk True w es"
| "window_walk fr w (Scroll # es) = window_walk False [] es"
| "window_walk fr w (Submit p n st tm # es) =
     window_walk fr
       (if fr then w @ [(n, \<lparr>problem = p, status = st, time = tm, before_freeze = False\<rparr>)]
        else w) es"
| "window_walk fr w (AddTeam n # es) = window_walk fr w es"
| "window_walk fr w (Start d k # es) = window_walk fr w es"
| "window_walk fr w (Flush # es) = window_walk fr w es"

definition spec_frozen_window :: "event list \<Rightarrow> string \<Rightarrow> string \<Rightarrow> Submission list" where
  "spec_frozen_window es n p =
     map snd (filter (\<lambda>e. fst e = n \<and> problem (snd e) = p) (window_walk False [] es))"

text \<open>
  The reveal of a status \<open>ps\<close>, as the specification has it, from the frozen window \<open>w\<close> of
  its team and problem: with an accepted submission in \<open>w\<close>, the problem is solved at the time
  of the first one, with the wrong attempts before the freeze plus the submissions of \<open>w\<close>
  before that one that are not accepted; with none, the wrong attempts before the freeze
  grow by the number of submissions of \<open>w\<close> that are not accepted. The frozen flag is cleared.
\<close>

definition spec_reveal :: "ProblemStatus \<Rightarrow> Submission list \<Rightarrow> ProblemStatus" where
  "spec_reveal ps w =
     (case find (\<lambda>x. status x = ''Accepted'') w of
        Some acc \<Rightarrow>
          ps\<lparr>frozen := False, solved := True, solve_time := time acc,
             wrong_attempts_before_first_success :=
               wrong_attempts_before_freeze ps
               + int (length (filter (\<lambda>x. status x \<noteq> ''Accepted'')
                                (takeWhile (\<lambda>x. status x \<noteq> ''Accepted'') w)))\<rparr>
      | None \<Rightarrow>
          ps\<lparr>frozen := False,
             wrong_attempts_before_freeze :=
               wrong_attempts_before_freeze ps
               + int (length (filter (\<lambda>x. status x \<noteq> ''Accepted'') w))\<rparr>)"

section \<open>Invariants\<close>

text \<open>A \<open>std::map\<close> holds every key once, in ascending order.\<close>

definition sorted_keys :: "'v std_map \<Rightarrow> bool" where
  "sorted_keys m = sorted_wrt (<) (map fst m)"

text \<open>
  What holds of the state after any sequence of validated commands (lemma
  \<open>run_consistent\<close>), and between the iterations of the scroll loop: \<open>team_order\<close> lists
  the keys of \<open>teams\<close>, every one once, and none is the empty name; and a problem status is
  frozen only while the board is, only if it is unsolved, and only for a problem of the
  configured set.
\<close>

definition consistent :: "system \<Rightarrow> bool" where
  "consistent s =
     (distinct (team_order s) \<and> [] \<notin> set (team_order s)
      \<and> (\<forall>(n, t)\<in>set (teams s). n \<in> set (team_order s))
      \<and> (\<forall>n\<in>set (team_order s).
            map_count (teams s) n = 1
            \<and> sorted_keys (problems (team_at (teams s) n))
            \<and> (\<forall>(p, ps)\<in>set (problems (team_at (teams s) n)).
                  frozen ps \<longrightarrow> is_frozen s \<and> \<not> solved ps \<and> p \<in> set (problem_names s))))"

text \<open>
  The rank fields are those of a ranking pass on the present state: so it is after
  \<open>flush_scoreboard\<close>, at the start of every iteration of the scroll loop.
\<close>

definition ranks_current :: "system \<Rightarrow> bool" where
  "ranks_current s = (\<forall>n\<in>set (team_order s). rank_of s n = rank_of (flush_scoreboard s) n)"

text \<open>The number of frozen problem statuses of the teams of \<open>team_order\<close>.\<close>

definition frozen_count :: "ProblemStatus std_map \<Rightarrow> nat" where
  "frozen_count P = length (filter (\<lambda>pp. frozen (snd pp)) P)"

definition frozen_total :: "system \<Rightarrow> nat" where
  "frozen_total s = sum_list (map (\<lambda>n. frozen_count (problems (team_at (teams s) n))) (team_order s))"

text \<open>
  A run of the scroll loop that makes exactly \<open>k\<close> iterations and then reaches its \<open>break\<close>:
  \<open>scroll_iterate k s\<close> is the state at the \<open>break\<close>, and \<open>None\<close> when the loop stops earlier or
  goes on.
\<close>

fun scroll_iterate :: "nat \<Rightarrow> system \<Rightarrow> system option" where
  "scroll_iterate 0 s = (case scroll_step s of None \<Rightarrow> Some s | Some _ \<Rightarrow> None)"
| "scroll_iterate (Suc k) s =
     (case scroll_step s of None \<Rightarrow> None | Some (s', msg) \<Rightarrow> scroll_iterate k s')"

section \<open>Contests\<close>

text \<open>
  Two problems. In the first contest, of teams \<open>a\<close> and \<open>b\<close>, \<open>b\<close> submits an accepted solution of
  \<open>A\<close> after the freeze; \<open>overtake_state\<close> is the state those commands lead to.
\<close>

definition overtake_events :: "event list" where
  "overtake_events =
     [AddTeam ''a'', AddTeam ''b'', Start 100 2, Freeze, Submit ''A'' ''b'' ''Accepted'' 5]"

definition overtake_state :: system where
  "overtake_state =
     \<lparr>teams =
        [(''a'', \<lparr>name = ''a'', problems = [], submissions = [], ranking = 1\<rparr>),
         (''b'', \<lparr>name = ''b'',
                  problems =
                    [(''A'', \<lparr>solved = False, solve_time = 0,
                             wrong_attempts_before_first_success = 0,
                             wrong_attempts_before_freeze = 0,
                             submissions_after_freeze = 1, frozen = True\<rparr>)],
                  submissions =
                    [\<lparr>problem = ''A'', status = ''Accepted'', time = 5, before_freeze = False\<rparr>],
                  ranking = 2\<rparr>)],
      team_order = [''a'', ''b''], competition_started = True, is_frozen = True,
      duration_time = 100, problem_count = 2, problem_names = [''A'', ''B''], freeze_time = 0\<rparr>"

text \<open>
  The second contest has a third team \<open>c\<close>, which never submits. \<open>a\<close> solves \<open>A\<close> and \<open>b\<close>
  fails it once before the freeze; after the freeze \<open>b\<close> fails \<open>A\<close> again and then solves it
  twice, \<open>a\<close> fails \<open>B\<close>, and the board is flushed.
\<close>

definition replay_events :: "event list" where
  "replay_events =
     [AddTeam ''a'', AddTeam ''b'', AddTeam ''c'', Start 100 2,
      Submit ''A'' ''a'' ''Accepted'' 10, Submit ''A'' ''b'' ''Wrong_Answer'' 20, Freeze,
      Submit ''A'' ''b'' ''Wrong_Answer'' 30, Submit ''A'' ''b'' ''Accepted'' 40,
      Submit ''A'' ''b'' ''Accepted'' 45, Submit ''B'' ''a'' ''Wrong_Answer'' 50, Flush]"

definition replay_state :: system where
  "replay_state =
     \<lparr>teams =
        [(''a'', \<lparr>name = ''a'',
                  problems =
                    [(''A'', \<lparr>solved = True, solve_time = 10,
                             wrong_attempts_before_first_success = 0,
                             wrong_attempts_before_freeze = 0,
                             submissions_after_freeze = 0, frozen = False\<rparr>),
                     (''B'', \<lparr>solved = False, solve_time = 0,
                             wrong_attempts_before_first_success = 0,
                             wrong_attempts_before_freeze = 0,
                             submissions_after_freeze = 1, frozen = True\<rparr>)],
                  submissions =
                    [\<lparr>problem = ''A'', status = ''Accepted'', time = 10, before_freeze = True\<rparr>,
                     \<lparr>problem = ''B'', status = ''Wrong_Answer'', time = 50,
                        before_freeze = False\<rparr>],
                  ranking = 1\<rparr>),
         (''b'', \<lparr>name = ''b'',
                  problems =
                    [(''A'', \<lparr>solved = False, solve_time = 0,
                             wrong_attempts_before_first_success = 0,
                             wrong_attempts_before_freeze = 1,
                             submissions_after_freeze = 3, frozen = True\<rparr>)],
                  submissions =
                    [\<lparr>problem = ''A'', status = ''Wrong_Answer'', time = 20,
                        before_freeze = True\<rparr>,
                     \<lparr>problem = ''A'', status = ''Wrong_Answer'', time = 30,
                        before_freeze = False\<rparr>,
                     \<lparr>problem = ''A'', status = ''Accepted'', time = 40, before_freeze = False\<rparr>,
                     \<lparr>problem = ''A'', status = ''Accepted'', time = 45,
                        before_freeze = False\<rparr>],
                  ranking = 2\<rparr>),
         (''c'', \<lparr>name = ''c'', problems = [], submissions = [], ranking = 3\<rparr>)],
      team_order = [''a'', ''b'', ''c''], competition_started = True, is_frozen = True,
      duration_time = 100, problem_count = 2, problem_names = [''A'', ''B''], freeze_time = 0\<rparr>"

text \<open>The state of the second contest after the first iteration of the scroll loop.\<close>

definition replay_state_2 :: system where
  "replay_state_2 = flush_scoreboard (replay_state\<lparr>teams := revealed_teams replay_state\<rparr>)"

text \<open>The state of the first contest after the one iteration of its scroll loop.\<close>

definition overtake_state_2 :: system where
  "overtake_state_2 = flush_scoreboard (overtake_state\<lparr>teams := revealed_teams overtake_state\<rparr>)"

text \<open>
  A third contest, with a command outside the validated input: one team, one problem \<open>A\<close>,
  and after the freeze a submission to \<open>B\<close>, which is not of the configured set.
  \<open>stray_state\<close> is the state after that submission, \<open>stray_loop_state\<close> the state after one
  iteration of the scroll loop.
\<close>

definition stray_state :: system where
  "stray_state =
     \<lparr>teams =
        [(''a'', \<lparr>name = ''a'',
                  problems =
                    [(''B'', \<lparr>solved = False, solve_time = 0,
                             wrong_attempts_before_first_success = 0,
                             wrong_attempts_before_freeze = 0,
                             submissions_after_freeze = 1, frozen = True\<rparr>)],
                  submissions =
                    [\<lparr>problem = ''B'', status = ''Accepted'', time = 5, before_freeze = False\<rparr>],
                  ranking = 1\<rparr>)],
      team_order = [''a''], competition_started = True, is_frozen = True,
      duration_time = 100, problem_count = 1, problem_names = [''A''], freeze_time = 0\<rparr>"

definition stray_loop_state :: system where
  "stray_loop_state = flush_scoreboard (stray_state\<lparr>teams := revealed_teams stray_state\<rparr>)"

text \<open>
  A fourth contest, with two freezes: one problem; \<open>a\<close> solves it at 20 after three wrong
  attempts; the board is frozen, \<open>b\<close> fails the problem at 30, and a scroll reveals that;
  the board is frozen again and \<open>b\<close> solves the problem at 50. \<open>refreeze_state\<close> is the state
  those commands lead to, \<open>refreeze_state_2\<close> the state after the one iteration of the loop
  of the second scroll.
\<close>

definition refreeze_events :: "event list" where
  "refreeze_events =
     [AddTeam ''a'', AddTeam ''b'', Start 100 1,
      Submit ''A'' ''a'' ''Wrong_Answer'' 5, Submit ''A'' ''a'' ''Wrong_Answer'' 10,
      Submit ''A'' ''a'' ''Wrong_Answer'' 15, Submit ''A'' ''a'' ''Accepted'' 20,
      Freeze, Submit ''A'' ''b'' ''Wrong_Answer'' 30, Scroll,
      Freeze, Submit ''A'' ''b'' ''Accepted'' 50]"

definition refreeze_state :: system where
  "refreeze_state =
     \<lparr>teams =
        [(''a'',
          \<lparr>name = ''a'',
             problems =
               [(''A'',
                 \<lparr>solved = True, solve_time = 20,
                    wrong_attempts_before_first_success = 3,
                    wrong_attempts_before_freeze = 3,
                    submissions_after_freeze = 0, frozen = False\<rparr>)],
             submissions =
               [\<lparr>problem = ''A'', status = ''Wrong_Answer'', time = 5,
                   before_freeze = True\<rparr>,
                \<lparr>problem = ''A'', status = ''Wrong_Answer'', time = 10,
                   before_freeze = True\<rparr>,
                \<lparr>problem = ''A'', status = ''Wrong_Answer'', time = 15,
                   before_freeze = True\<rparr>,
                \<lparr>problem = ''A'', status = ''Accepted'', time = 20,
                   before_freeze = True\<rparr>],
             ranking = 1\<rparr>),
         (''b'',
          \<lparr>name = ''b'',
             problems =
               [(''A'',
                 \<lparr>solved = False, solve_time = 0,
                    wrong_attempts_before_first_success = 0,
                    wrong_attempts_before_freeze = 1,
                    submissions_after_freeze = 1, frozen = True\<rparr>)],
             submissions =
               [\<lparr>problem = ''A'', status = ''Wrong_Answer'', time = 30,
                   before_freeze = False\<rparr>,
                \<lparr>problem = ''A'', status = ''Accepted'', time = 50,
                   before_freeze = False\<rparr>],
             ranking = 2\<rparr>)],
        team_order = [''a'', ''b''], competition_started = True,
        is_frozen = True, duration_time = 100, problem_count = 1,
        problem_names = [''A''], freeze_time = 0\<rparr>"

definition refreeze_state_2 :: system where
  "refreeze_state_2 = flush_scoreboard (refreeze_state\<lparr>teams := revealed_teams refreeze_state\<rparr>)"

text \<open>
  A fifth contest, of six teams and three problems, with no freeze, flushed at its end.
  \<open>d\<close> solves three problems and the others two; \<open>c\<close> has penalty 45 and \<open>a\<close>, \<open>b\<close>, \<open>e\<close>,
  \<open>f\<close> have penalty 80; \<open>a\<close> and \<open>e\<close> solve at 30 and 50, \<open>b\<close> at 10, after one wrong attempt,
  and at 50, \<open>f\<close> at 35 and 45.
\<close>

definition tiebreak_events :: "event list" where
  "tiebreak_events =
     [AddTeam ''a'', AddTeam ''b'', AddTeam ''c'', AddTeam ''d'', AddTeam ''e'', AddTeam ''f'',
      Start 100 3,
      Submit ''A'' ''c'' ''Accepted'' 5, Submit ''A'' ''b'' ''Wrong_Answer'' 8,
      Submit ''A'' ''b'' ''Accepted'' 10, Submit ''A'' ''a'' ''Accepted'' 30,
      Submit ''A'' ''e'' ''Accepted'' 30, Submit ''A'' ''f'' ''Accepted'' 35,
      Submit ''B'' ''c'' ''Accepted'' 40, Submit ''B'' ''f'' ''Accepted'' 45,
      Submit ''B'' ''a'' ''Accepted'' 50, Submit ''B'' ''b'' ''Accepted'' 50,
      Submit ''B'' ''e'' ''Accepted'' 50, Submit ''A'' ''d'' ''Accepted'' 60,
      Submit ''B'' ''d'' ''Accepted'' 70, Submit ''C'' ''d'' ''Accepted'' 80, Flush]"

definition tiebreak_state :: system where
  "tiebreak_state =
     \<lparr>teams =
        [(''a'',
          \<lparr>name = ''a'',
             problems =
               [(''A'',
                 \<lparr>solved = True, solve_time = 30,
                    wrong_attempts_before_first_success = 0,
                    wrong_attempts_before_freeze = 0,
                    submissions_after_freeze = 0, frozen = False\<rparr>),
                (''B'',
                 \<lparr>solved = True, solve_time = 50,
                    wrong_attempts_before_first_success = 0,
                    wrong_attempts_before_freeze = 0,
                    submissions_after_freeze = 0, frozen = False\<rparr>)],
             submissions =
               [\<lparr>problem = ''A'', status = ''Accepted'', time = 30,
                   before_freeze = True\<rparr>,
                \<lparr>problem = ''B'', status = ''Accepted'', time = 50,
                   before_freeze = True\<rparr>],
             ranking = 5\<rparr>),
         (''b'',
          \<lparr>name = ''b'',
             problems =
               [(''A'',
                 \<lparr>solved = True, solve_time = 10,
                    wrong_attempts_before_first_success = 1,
                    wrong_attempts_before_freeze = 1,
                    submissions_after_freeze = 0, frozen = False\<rparr>),
                (''B'',
                 \<lparr>solved = True, solve_time = 50,
                    wrong_attempts_before_first_success = 0,
                    wrong_attempts_before_freeze = 0,
                    submissions_after_freeze = 0, frozen = False\<rparr>)],
             submissions =
               [\<lparr>problem = ''A'', status = ''Wrong_Answer'', time = 8,
                   before_freeze = True\<rparr>,
                \<lparr>problem = ''A'', status = ''Accepted'', time = 10,
                   before_freeze = True\<rparr>,
                \<lparr>problem = ''B'', status = ''Accepted'', time = 50,
                   before_freeze = True\<rparr>],
             ranking = 4\<rparr>),
         (''c'',
          \<lparr>name = ''c'',
             problems =
               [(''A'',
                 \<lparr>solved = True, solve_time = 5,
                    wrong_attempts_before_first_success = 0,
                    wrong_attempts_before_freeze = 0,
                    submissions_after_freeze = 0, frozen = False\<rparr>),
                (''B'',
                 \<lparr>solved = True, solve_time = 40,
                    wrong_attempts_before_first_success = 0,
                    wrong_attempts_before_freeze = 0,
                    submissions_after_freeze = 0, frozen = False\<rparr>)],
             submissions =
               [\<lparr>problem = ''A'', status = ''Accepted'', time = 5,
                   before_freeze = True\<rparr>,
                \<lparr>problem = ''B'', status = ''Accepted'', time = 40,
                   before_freeze = True\<rparr>],
             ranking = 2\<rparr>),
         (''d'',
          \<lparr>name = ''d'',
             problems =
               [(''A'',
                 \<lparr>solved = True, solve_time = 60,
                    wrong_attempts_before_first_success = 0,
                    wrong_attempts_before_freeze = 0,
                    submissions_after_freeze = 0, frozen = False\<rparr>),
                (''B'',
                 \<lparr>solved = True, solve_time = 70,
                    wrong_attempts_before_first_success = 0,
                    wrong_attempts_before_freeze = 0,
                    submissions_after_freeze = 0, frozen = False\<rparr>),
                (''C'',
                 \<lparr>solved = True, solve_time = 80,
                    wrong_attempts_before_first_success = 0,
                    wrong_attempts_before_freeze = 0,
                    submissions_after_freeze = 0, frozen = False\<rparr>)],
             submissions =
               [\<lparr>problem = ''A'', status = ''Accepted'', time = 60,
                   before_freeze = True\<rparr>,
                \<lparr>problem = ''B'', status = ''Accepted'', time = 70,
                   before_freeze = True\<rparr>,
                \<lparr>problem = ''C'', status = ''Accepted'', time = 80,
                   before_freeze = True\<rparr>],
             ranking = 1\<rparr>),
         (''e'',
          \<lparr>name = ''e'',
             problems =
               [(''A'',
                 \<lparr>solved = True, solve_time = 30,
                    wrong_attempts_before_first_success = 0,
                    wrong_attempts_before_freeze = 0,
                    submissions_after_freeze = 0, frozen = False\<rparr>),
                (''B'',
                 \<lparr>solved = True, solve_time = 50,
                    wrong_attempts_before_first_success = 0,
                    wrong_attempts_before_freeze = 0,
                    submissions_after_freeze = 0, frozen = False\<rparr>)],
             submissions =
               [\<lparr>problem = ''A'', status = ''Accepted'', time = 30,
                   before_freeze = True\<rparr>,
                \<lparr>problem = ''B'', status = ''Accepted'', time = 50,
                   before_freeze = True\<rparr>],
             ranking = 6\<rparr>),
         (''f'',
          \<lparr>name = ''f'',
             problems =
               [(''A'',
                 \<lparr>solved = True, solve_time = 35,
                    wrong_attempts_before_first_success = 0,
                    wrong_attempts_before_freeze = 0,
                    submissions_after_freeze = 0, frozen = False\<rparr>),
                (''B'',
                 \<lparr>solved = True, solve_time = 45,
                    wrong_attempts_before_first_success = 0,
                    wrong_attempts_before_freeze = 0,
                    submissions_after_freeze = 0, frozen = False\<rparr>)],
             submissions =
               [\<lparr>problem = ''A'', status = ''Accepted'', time = 35,
                   before_freeze = True\<rparr>,
                \<lparr>problem = ''B'', status = ''Accepted'', time = 45,
                   before_freeze = True\<rparr>],
             ranking = 3\<rparr>)],
        team_order = [''a'', ''b'', ''c'', ''d'', ''e'', ''f''],
        competition_started = True, is_frozen = False, duration_time = 100,
        problem_count = 3, problem_names = [''A'', ''B'', ''C''],
        freeze_time = 0\<rparr>"

section \<open>Lemmas on \<open>std::map\<close>\<close>

lemma map_of_map_set: "map_of (map_set k v m) = (map_of m)(k \<mapsto> v)"
  by (induction m) (auto simp: fun_eq_iff)

lemma map_at_map_set: "map_at d (map_set k v m) k' = (if k' = k then v else map_at d m k')"
  by (simp add: map_at_def map_of_map_set)

lemma map_count_map_set:
  "map_count (map_set k v m) k' = (if k' = k then 1 else map_count m k')"
  by (simp add: map_count_def map_of_map_set)

lemma map_touch_at: "map_at d (map_touch d m k) k' = map_at d m k'"
  by (cases "map_of m k") (simp_all add: map_touch_def map_at_map_set, simp add: map_at_def)

lemma map_touch_count: "map_count (map_touch d m k) k' = (if k' = k then 1 else map_count m k')"
  by (cases "map_of m k") (auto simp: map_touch_def map_count_def map_of_map_set)

section \<open>Lemmas on the ranking pass\<close>

lemma assign_ranks_other: "n \<notin> set ns \<Longrightarrow> map_of (assign_ranks i ns T) n = map_of T n"
  by (induction i ns T rule: assign_ranks.induct) (simp_all add: map_of_map_set)

lemma assign_ranks_count:
  "map_count (assign_ranks i ns T) n = (if n \<in> set ns then 1 else map_count T n)"
  by (induction i ns T rule: assign_ranks.induct) (auto simp: map_count_map_set)

lemma assign_ranks_fields:
  "problems (team_at (assign_ranks i ns T) n) = problems (team_at T n)
   \<and> submissions (team_at (assign_ranks i ns T) n) = submissions (team_at T n)
   \<and> name (team_at (assign_ranks i ns T) n) = name (team_at T n)"
  by (induction i ns T rule: assign_ranks.induct) (simp_all add: map_at_map_set)

lemma assign_ranks_nth:
  "distinct ns \<Longrightarrow> k < length ns \<Longrightarrow>
   ranking (team_at (assign_ranks i ns T) (ns ! k)) = i + 1 + int k"
proof (induction i ns T arbitrary: k rule: assign_ranks.induct)
  case (1 i T)
  then show ?case by simp
next
  case (2 i n ns T)
  show ?case
  proof (cases k)
    case 0
    from "2.prems" have "n \<notin> set ns" by simp
    then have "map_of (assign_ranks (i + 1) ns (map_set n ((team_at T n)\<lparr>ranking := i + 1\<rparr>) T)) n
      = map_of (map_set n ((team_at T n)\<lparr>ranking := i + 1\<rparr>) T) n"
      by (rule assign_ranks_other)
    with 0 show ?thesis by (simp add: map_at_def map_of_map_set)
  next
    case (Suc k')
    with "2.prems" "2.IH"[of k'] show ?thesis by simp
  qed
qed

lemma mset_sort_insert: "mset (sort_insert lt x xs) = add_mset x (mset xs)"
  by (induction xs) auto

lemma mset_std_sort: "mset (std_sort lt xs) = mset xs"
  by (induction xs) (auto simp: mset_sort_insert)

lemma set_std_sort: "set (std_sort lt xs) = set xs"
  using mset_std_sort[of lt xs] by (rule mset_eq_setD)

lemma distinct_std_sort: "distinct (std_sort lt xs) = distinct xs"
  using mset_std_sort[of lt xs] by (rule mset_eq_imp_distinct_iff)

lemma length_std_sort: "length (std_sort lt xs) = length xs"
  using mset_std_sort[of lt xs] by (rule mset_eq_length)

lemma set_sorted_teams: "set (sorted_teams s) = set (team_order s)"
  by (simp add: sorted_teams_def set_std_sort)

lemma distinct_sorted_teams: "distinct (sorted_teams s) = distinct (team_order s)"
  by (simp add: sorted_teams_def distinct_std_sort)

lemma length_sorted_teams: "length (sorted_teams s) = length (team_order s)"
  by (simp add: sorted_teams_def length_std_sort)

lemma team_order_flush: "team_order (flush_scoreboard s) = team_order s"
  by (simp add: flush_scoreboard_def)

lemma status_of_flush: "status_of (flush_scoreboard s) n p = status_of s n p"
  by (simp add: status_of_def flush_scoreboard_def assign_ranks_fields)

lemma history_of_flush: "history_of (flush_scoreboard s) n = history_of s n"
  by (simp add: history_of_def flush_scoreboard_def assign_ranks_fields)

lemma rank_of_flush_nth:
  "distinct (team_order s) \<Longrightarrow> k < length (team_order s) \<Longrightarrow>
   rank_of (flush_scoreboard s) (sorted_teams s ! k) = 1 + int k"
  by (simp add: rank_of_def flush_scoreboard_def assign_ranks_nth distinct_sorted_teams
      length_sorted_teams)

lemma rank_of_flush_other:
  "n \<notin> set (team_order s) \<Longrightarrow> rank_of (flush_scoreboard s) n = rank_of s n"
  by (simp add: rank_of_def flush_scoreboard_def map_at_def assign_ranks_other set_sorted_teams)

lemma ranks_bij:
  assumes "distinct (team_order s)"
  shows "bij_betw (rank_of (flush_scoreboard s)) (set (team_order s))
            {1 .. int (length (team_order s))}"
proof -
  let ?ns = "sorted_teams s" and ?N = "length (team_order s)"
  let ?r = "rank_of (flush_scoreboard s)"
  have len: "length ?ns = ?N" by (rule length_sorted_teams)
  have nth: "\<And>k. k < ?N \<Longrightarrow> ?r (?ns ! k) = 1 + int k"
    using assms by (rule rank_of_flush_nth)
  have inj: "inj_on ?r (set ?ns)"
  proof (rule inj_onI)
    fix x y assume x: "x \<in> set ?ns" and y: "y \<in> set ?ns" and eq: "?r x = ?r y"
    from x len obtain i where i: "i < ?N" "x = ?ns ! i" by (auto simp: in_set_conv_nth)
    from y len obtain j where j: "j < ?N" "y = ?ns ! j" by (auto simp: in_set_conv_nth)
    from eq i j nth[of i] nth[of j] show "x = y" by simp
  qed
  have img: "?r ` set ?ns = {1 .. int ?N}"
  proof (rule set_eqI)
    fix r
    show "r \<in> ?r ` set ?ns \<longleftrightarrow> r \<in> {1 .. int ?N}"
    proof
      assume "r \<in> ?r ` set ?ns"
      then obtain x where x: "x \<in> set ?ns" "r = ?r x" by blast
      from x(1) len obtain i where i: "i < ?N" "x = ?ns ! i" by (auto simp: in_set_conv_nth)
      from x(2) i nth[of i] show "r \<in> {1 .. int ?N}" by simp
    next
      assume r: "r \<in> {1 .. int ?N}"
      then have k: "nat (r - 1) < ?N" by auto
      from nth[OF k] r have "r = ?r (?ns ! nat (r - 1))" by simp
      moreover from k len have "?ns ! nat (r - 1) \<in> set ?ns" by simp
      ultimately show "r \<in> ?r ` set ?ns" by (rule image_eqI)
    qed
  qed
  from inj img show ?thesis
    by (simp add: bij_betw_def set_sorted_teams)
qed

section \<open>Lemmas on the reveal\<close>

lemma after_freeze_subs_Cons:
  "after_freeze_subs p (x # xs) =
     (if problem x = p \<and> \<not> before_freeze x then x # after_freeze_subs p xs else after_freeze_subs p xs)"
  by (simp add: after_freeze_subs_def)

lemma replay_solved: "solved ps \<Longrightarrow> replay p subs ps k = (ps, k)"
  by (induction subs arbitrary: k) auto

lemma replay_no_accept:
  "\<not> solved ps \<Longrightarrow> \<forall>x\<in>set (after_freeze_subs p subs). status x \<noteq> ''Accepted'' \<Longrightarrow>
   replay p subs ps k = (ps, k + int (length (after_freeze_subs p subs)))"
  by (induction subs arbitrary: k) (auto simp: after_freeze_subs_def)

lemma replay_first_accept:
  "\<not> solved ps \<Longrightarrow> after_freeze_subs p subs = pre @ acc # post \<Longrightarrow> status acc = ''Accepted'' \<Longrightarrow>
   \<forall>x\<in>set pre. status x \<noteq> ''Accepted'' \<Longrightarrow>
   replay p subs ps k =
     (ps\<lparr>solved := True, solve_time := time acc,
         wrong_attempts_before_first_success :=
           wrong_attempts_before_freeze ps + (k + int (length pre))\<rparr>, k + int (length pre))"
proof (induction subs arbitrary: k pre)
  case Nil
  then show ?case by (simp add: after_freeze_subs_def)
next
  case (Cons x xs)
  show ?case
  proof (cases "problem x = p \<and> \<not> before_freeze x")
    case False
    with Cons.prems have "after_freeze_subs p xs = pre @ acc # post"
      by (auto simp: after_freeze_subs_Cons)
    from Cons.IH[OF Cons.prems(1) this Cons.prems(3,4)] False show ?thesis by auto
  next
    case True
    with Cons.prems have fw: "x # after_freeze_subs p xs = pre @ acc # post"
      by (simp add: after_freeze_subs_Cons)
    show ?thesis
    proof (cases pre)
      case Nil
      with fw have "x = acc" by simp
      with True Nil Cons.prems show ?thesis by (simp add: replay_solved)
    next
      case (Cons y pre')
      with fw have xy: "x = y" and rest: "after_freeze_subs p xs = pre' @ acc # post" by simp_all
      from Cons Cons.prems(4) xy have nx: "status x \<noteq> ''Accepted''" and
        pre': "\<forall>x\<in>set pre'. status x \<noteq> ''Accepted''" by simp_all
      from Cons.IH[OF Cons.prems(1) rest Cons.prems(3) pre', of "k + 1"] True nx Cons Cons.prems(1)
      show ?thesis by (simp add: algebra_simps)
    qed
  qed
qed

lemma reveal_accept:
  assumes "\<not> solved ps" "after_freeze_subs p subs = pre @ acc # post" "status acc = ''Accepted''"
    "\<forall>x\<in>set pre. status x \<noteq> ''Accepted''"
  shows "reveal p subs ps =
     ps\<lparr>frozen := False, solved := True, solve_time := time acc,
         wrong_attempts_before_first_success :=
           wrong_attempts_before_freeze ps + int (length pre)\<rparr>"
proof -
  have "\<not> solved (ps\<lparr>frozen := False\<rparr>)" using assms(1) by simp
  from replay_first_accept[OF this assms(2,3,4), of 0] show ?thesis
    by (simp add: reveal_def)
qed

lemma reveal_no_accept:
  assumes "\<not> solved ps" "\<forall>x\<in>set (after_freeze_subs p subs). status x \<noteq> ''Accepted''"
  shows "reveal p subs ps =
     ps\<lparr>frozen := False,
         wrong_attempts_before_freeze :=
           wrong_attempts_before_freeze ps + int (length (after_freeze_subs p subs))\<rparr>"
proof -
  have "\<not> solved (ps\<lparr>frozen := False\<rparr>)" using assms(1) by simp
  from replay_no_accept[OF this assms(2), of 0] assms(1) show ?thesis
    by (simp add: reveal_def)
qed

text \<open>
  The replay of the source is the reveal of the specification, on the submissions that the
  loop of the source visits.
\<close>

lemma find_first:
  "\<forall>x\<in>set pre. \<not> P x \<Longrightarrow> P acc \<Longrightarrow>
   find P (pre @ acc # post) = Some acc \<and> takeWhile (\<lambda>x. \<not> P x) (pre @ acc # post) = pre"
  by (induction pre) simp_all

lemma reveal_spec:
  assumes "\<not> solved ps"
  shows "reveal p subs ps = spec_reveal ps (after_freeze_subs p subs)"
proof (cases "\<exists>x\<in>set (after_freeze_subs p subs). status x = ''Accepted''")
  case True
  then obtain x where "x \<in> set (after_freeze_subs p subs)" "status x = ''Accepted''" by blast
  from split_list_first_prop[of "after_freeze_subs p subs" "\<lambda>x. status x = ''Accepted''", OF True]
  obtain pre acc post where w: "after_freeze_subs p subs = pre @ acc # post"
    and acc: "status acc = ''Accepted''" and pre: "\<forall>x\<in>set pre. status x \<noteq> ''Accepted''"
    by blast
  from find_first[of pre "\<lambda>x. status x = ''Accepted''" acc post] pre acc
  have f: "find (\<lambda>x. status x = ''Accepted'') (pre @ acc # post) = Some acc"
    and t: "takeWhile (\<lambda>x. status x \<noteq> ''Accepted'') (pre @ acc # post) = pre"
    by simp_all
  from pre have fl: "filter (\<lambda>x. status x \<noteq> ''Accepted'') pre = pre" by simp
  show ?thesis
    unfolding reveal_accept[OF assms w acc pre] spec_reveal_def w f t fl by simp
next
  case False
  then have none: "\<forall>x\<in>set (after_freeze_subs p subs). status x \<noteq> ''Accepted''" by blast
  then have f: "find (\<lambda>x. status x = ''Accepted'') (after_freeze_subs p subs) = None"
    by (simp add: find_None_iff)
  from none have fl: "filter (\<lambda>x. status x \<noteq> ''Accepted'') (after_freeze_subs p subs)
      = after_freeze_subs p subs" by simp
  show ?thesis
    unfolding reveal_no_accept[OF assms none] spec_reveal_def f fl by simp
qed

lemma find_unfreeze_at: "status_at (snd (find_unfreeze pnames P)) q = status_at P q"
  by (induction pnames arbitrary: P) (simp_all add: Let_def map_touch_at)

lemma scroll_step_SomeD:
  "scroll_step s = Some (s', note) \<Longrightarrow>
   lowest_team s \<noteq> [] \<and> s' = flush_scoreboard (s\<lparr>teams := revealed_teams s\<rparr>)"
  by (auto simp: scroll_step_def Let_def split: if_splits)

lemma revealed_team_fields:
  "problems (team_at (revealed_teams s) (lowest_team s))
     = map_set (unfreeze_problem s)
         (reveal (unfreeze_problem s) (history_of s (lowest_team s))
            (status_of s (lowest_team s) (unfreeze_problem s)))
         (snd (find_unfreeze (problem_names s) (problems (team_at (teams s) (lowest_team s)))))
   \<and> submissions (team_at (revealed_teams s) (lowest_team s)) = history_of s (lowest_team s)
   \<and> ranking (team_at (revealed_teams s) (lowest_team s)) = rank_of s (lowest_team s)
   \<and> name (team_at (revealed_teams s) (lowest_team s)) = name (team_at (teams s) (lowest_team s))"
  by (simp add: revealed_teams_def Let_def split_beta map_at_map_set unfreeze_problem_def
      history_of_def status_of_def rank_of_def find_unfreeze_at)

lemma revealed_other:
  "n \<noteq> lowest_team s \<Longrightarrow> map_of (revealed_teams s) n = map_of (teams s) n"
  by (simp add: revealed_teams_def Let_def split_beta map_of_map_set)

lemma scroll_step_status:
  assumes "scroll_step s = Some (s', note)"
  shows "status_of s' (lowest_team s) (unfreeze_problem s)
           = reveal (unfreeze_problem s) (history_of s (lowest_team s))
               (status_of s (lowest_team s) (unfreeze_problem s))"
proof -
  from assms have s': "s' = flush_scoreboard (s\<lparr>teams := revealed_teams s\<rparr>)"
    by (simp add: scroll_step_SomeD)
  show ?thesis
    unfolding s' status_of_flush
    by (simp add: status_of_def revealed_team_fields map_at_map_set)
qed

section \<open>Lemmas on the submission query\<close>

lemma find_rev_Some:
  "find P (rev h) = Some x \<longleftrightarrow> (\<exists>a b. h = a @ x # b \<and> P x \<and> (\<forall>y\<in>set b. \<not> P y))"
proof (induction h rule: rev_induct)
  case Nil
  then show ?case by simp
next
  case (snoc z h)
  show ?case
  proof (cases "P z")
    case True
    have "(\<exists>a b. h @ [z] = a @ x # b \<and> P x \<and> (\<forall>y\<in>set b. \<not> P y)) \<longleftrightarrow> x = z"
    proof
      assume "\<exists>a b. h @ [z] = a @ x # b \<and> P x \<and> (\<forall>y\<in>set b. \<not> P y)"
      then obtain a b where ab: "h @ [z] = a @ x # b" "\<forall>y\<in>set b. \<not> P y" by blast
      show "x = z"
      proof (cases b rule: rev_cases)
        case Nil
        with ab show ?thesis by simp
      next
        case (snoc b' w)
        with ab have "w = z" by simp
        with snoc ab True show ?thesis by simp
      qed
    next
      assume "x = z"
      with True show "\<exists>a b. h @ [z] = a @ x # b \<and> P x \<and> (\<forall>y\<in>set b. \<not> P y)"
        by (intro exI[of _ h] exI[of _ "[]"]) simp
    qed
    with True show ?thesis by auto
  next
    case False
    have "(\<exists>a b. h @ [z] = a @ x # b \<and> P x \<and> (\<forall>y\<in>set b. \<not> P y))
          \<longleftrightarrow> (\<exists>a b. h = a @ x # b \<and> P x \<and> (\<forall>y\<in>set b. \<not> P y))"
    proof
      assume "\<exists>a b. h @ [z] = a @ x # b \<and> P x \<and> (\<forall>y\<in>set b. \<not> P y)"
      then obtain a b where ab: "h @ [z] = a @ x # b" "P x" "\<forall>y\<in>set b. \<not> P y" by blast
      show "\<exists>a b. h = a @ x # b \<and> P x \<and> (\<forall>y\<in>set b. \<not> P y)"
      proof (cases b rule: rev_cases)
        case Nil
        with ab False show ?thesis by simp
      next
        case (snoc b' w)
        with ab have "h = a @ x # b'" by simp
        with ab snoc show ?thesis by auto
      qed
    next
      assume "\<exists>a b. h = a @ x # b \<and> P x \<and> (\<forall>y\<in>set b. \<not> P y)"
      then obtain a b where ab: "h = a @ x # b" "P x" "\<forall>y\<in>set b. \<not> P y" by blast
      with False show "\<exists>a b. h @ [z] = a @ x # b \<and> P x \<and> (\<forall>y\<in>set b. \<not> P y)"
        by (intro exI[of _ a] exI[of _ "b @ [z]"]) simp
    qed
    with False snoc.IH show ?thesis by simp
  qed
qed

lemma find_rev_None: "find P (rev h) = None \<longleftrightarrow> (\<forall>y\<in>set h. \<not> P y)"
  by (auto simp: find_None_iff)

lemma sub_match_iff:
  "sub_match p st sub \<longleftrightarrow> (p = ''ALL'' \<or> problem sub = p) \<and> (st = ''ALL'' \<or> status sub = st)"
  by (auto simp: sub_match_def)

lemma show_int_0: "show_int 0 = ''0''"
  by (simp add: show_int_def digit_char_def)

section \<open>The two contests\<close>

lemma run_overtake: "run overtake_events system_init = Some overtake_state"
  by code_simp

lemma run_replay: "run replay_events system_init = Some replay_state"
  by code_simp

lemma run_refreeze: "run refreeze_events system_init = Some refreeze_state"
  by code_simp

lemma run_tiebreak: "run tiebreak_events system_init = Some tiebreak_state"
  by code_simp

section \<open>Lemmas on the comparison of teams\<close>

lemma stats_loop_length:
  "int (length (solve_times (stats_loop inc m st))) - solved_count (stats_loop inc m st)
     = int (length (solve_times st)) - solved_count st"
  by (induction inc m st rule: stats_loop.induct) auto

lemma calculate_team_stats_length:
  "int (length (solve_times (calculate_team_stats t inc))) = solved_count (calculate_team_stats t inc)"
  using stats_loop_length[of inc "problems t" "\<lparr>solved_count = 0, penalty_time = 0, solve_times = []\<rparr>"]
  by (simp add: calculate_team_stats_def Let_def)

lemma first_diff_None_iff: "length xs = length ys \<Longrightarrow> first_diff xs ys = None \<longleftrightarrow> xs = ys"
  by (induction xs ys rule: list_induct2) auto

lemma first_diff_flip: "first_diff ys xs = map_option Not (first_diff xs ys)"
  by (induction xs ys rule: first_diff.induct) auto

lemma first_diff_trans:
  "length xs = length ys \<Longrightarrow> length ys = length zs \<Longrightarrow>
   first_diff xs ys = Some True \<Longrightarrow> first_diff ys zs = Some True \<Longrightarrow>
   first_diff xs zs = Some True"
  by (induction xs ys zs rule: list_induct3) (auto split: if_splits)

lemma first_diff_Some_iff:
  "first_diff xs ys = Some b \<longleftrightarrow>
     (\<exists>i < min (length xs) (length ys).
        (\<forall>j<i. xs ! j = ys ! j) \<and> xs ! i \<noteq> ys ! i \<and> b = (xs ! i < ys ! i))"
proof (induction xs ys rule: first_diff.induct)
  case (1 x xs y ys)
  show ?case
  proof (cases "x = y")
    case False
    have "(\<exists>i < min (length (x # xs)) (length (y # ys)).
        (\<forall>j<i. (x # xs) ! j = (y # ys) ! j) \<and> (x # xs) ! i \<noteq> (y # ys) ! i
        \<and> b = ((x # xs) ! i < (y # ys) ! i)) \<longleftrightarrow> b = (x < y)"
    proof
      assume "\<exists>i < min (length (x # xs)) (length (y # ys)).
        (\<forall>j<i. (x # xs) ! j = (y # ys) ! j) \<and> (x # xs) ! i \<noteq> (y # ys) ! i
        \<and> b = ((x # xs) ! i < (y # ys) ! i)"
      then obtain i where i: "\<forall>j<i. (x # xs) ! j = (y # ys) ! j"
        "b = ((x # xs) ! i < (y # ys) ! i)" by blast
      have "i = 0"
      proof (rule ccontr)
        assume "i \<noteq> 0"
        then have "0 < i" by simp
        with i(1) have "(x # xs) ! 0 = (y # ys) ! 0" by blast
        with False show False by simp
      qed
      with i(2) show "b = (x < y)" by simp
    next
      assume "b = (x < y)"
      with False show "\<exists>i < min (length (x # xs)) (length (y # ys)).
        (\<forall>j<i. (x # xs) ! j = (y # ys) ! j) \<and> (x # xs) ! i \<noteq> (y # ys) ! i
        \<and> b = ((x # xs) ! i < (y # ys) ! i)"
        by (intro exI[of _ 0]) simp
    qed
    with False show ?thesis by auto
  next
    case True
    have "(\<exists>i < min (length (x # xs)) (length (y # ys)).
        (\<forall>j<i. (x # xs) ! j = (y # ys) ! j) \<and> (x # xs) ! i \<noteq> (y # ys) ! i
        \<and> b = ((x # xs) ! i < (y # ys) ! i))
      \<longleftrightarrow> (\<exists>i < min (length xs) (length ys).
        (\<forall>j<i. xs ! j = ys ! j) \<and> xs ! i \<noteq> ys ! i \<and> b = (xs ! i < ys ! i))"
      (is "?L \<longleftrightarrow> ?R")
    proof
      assume ?L
      then obtain i where i: "i < min (length (x # xs)) (length (y # ys))"
        "\<forall>j<i. (x # xs) ! j = (y # ys) ! j" "(x # xs) ! i \<noteq> (y # ys) ! i"
        "b = ((x # xs) ! i < (y # ys) ! i)" by blast
      from i(3) True obtain k where k: "i = Suc k" by (cases i) auto
      have "\<forall>j<k. xs ! j = ys ! j"
      proof (intro allI impI)
        fix j assume "j < k"
        then have "Suc j < i" using k by simp
        with i(2) have "(x # xs) ! Suc j = (y # ys) ! Suc j" by blast
        then show "xs ! j = ys ! j" by simp
      qed
      with i k show ?R by (intro exI[of _ k]) simp
    next
      assume ?R
      then obtain k where k: "k < min (length xs) (length ys)"
        "\<forall>j<k. xs ! j = ys ! j" "xs ! k \<noteq> ys ! k" "b = (xs ! k < ys ! k)" by blast
      have "\<forall>j<Suc k. (x # xs) ! j = (y # ys) ! j"
      proof (intro allI impI)
        fix j assume "j < Suc k"
        with k(2) True show "(x # xs) ! j = (y # ys) ! j" by (cases j) auto
      qed
      with k show ?L by (intro exI[of _ "Suc k"]) simp
    qed
    with True "1.IH" show ?thesis by simp
  qed
qed simp_all

lemma first_diff_None_nth:
  "first_diff xs ys = None \<longleftrightarrow> (\<forall>i < min (length xs) (length ys). xs ! i = ys ! i)"
proof -
  have "first_diff xs ys = None \<longleftrightarrow> (\<forall>b. first_diff xs ys \<noteq> Some b)" by auto
  also have "\<dots> \<longleftrightarrow> \<not> (\<exists>i < min (length xs) (length ys). (\<forall>j<i. xs ! j = ys ! j) \<and> xs ! i \<noteq> ys ! i)"
    unfolding first_diff_Some_iff by blast
  also have "\<dots> \<longleftrightarrow> (\<forall>i < min (length xs) (length ys). xs ! i = ys ! i)"
  proof
    assume a: "\<not> (\<exists>i < min (length xs) (length ys). (\<forall>j<i. xs ! j = ys ! j) \<and> xs ! i \<noteq> ys ! i)"
    show "\<forall>i < min (length xs) (length ys). xs ! i = ys ! i"
    proof (intro allI impI)
      fix i assume "i < min (length xs) (length ys)"
      then show "xs ! i = ys ! i"
      proof (induction i rule: less_induct)
        case (less i)
        then have "\<forall>j<i. xs ! j = ys ! j" by simp
        with a less.prems show ?case by blast
      qed
    qed
  next
    assume "\<forall>i < min (length xs) (length ys). xs ! i = ys ! i"
    then show "\<not> (\<exists>i < min (length xs) (length ys). (\<forall>j<i. xs ! j = ys ! j) \<and> xs ! i \<noteq> ys ! i)"
      by blast
  qed
  finally show ?thesis .
qed


text \<open>The chain of \<open>compare_teams\<close> on the three statistics and the names.\<close>

lemma compare_teams_chain:
  "compare_teams T a b inc \<longleftrightarrow>
     (let sa = calculate_team_stats (team_at T a) inc;
          sb = calculate_team_stats (team_at T b) inc
      in solved_count sa > solved_count sb
         \<or> (solved_count sa = solved_count sb
            \<and> (penalty_time sa < penalty_time sb
               \<or> (penalty_time sa = penalty_time sb
                  \<and> (first_diff (solve_times sa) (solve_times sb) = Some True
                     \<or> (first_diff (solve_times sa) (solve_times sb) = None \<and> a < b))))))"
  by (auto simp: compare_teams_def Let_def split: option.splits)

lemma first_diff_same: "first_diff xs xs = None"
  by (simp add: first_diff_None_iff)

lemma compare_teams_irrefl: "\<not> compare_teams T a a inc"
  by (simp add: compare_teams_def Let_def first_diff_same)

lemma compare_teams_total: "a \<noteq> b \<Longrightarrow> compare_teams T a b inc \<or> compare_teams T b a inc"
proof -
  assume ab: "a \<noteq> b"
  let ?sa = "calculate_team_stats (team_at T a) inc" and ?sb = "calculate_team_stats (team_at T b) inc"
  show ?thesis
  proof (cases "solved_count ?sa = solved_count ?sb \<and> penalty_time ?sa = penalty_time ?sb")
    case False
    then show ?thesis by (auto simp: compare_teams_def Let_def)
  next
    case True
    show ?thesis
    proof (cases "first_diff (solve_times ?sa) (solve_times ?sb)")
      case None
      then have "first_diff (solve_times ?sb) (solve_times ?sa) = None"
        by (simp add: first_diff_flip[of "solve_times ?sb"])
      with None True ab show ?thesis by (auto simp: compare_teams_def Let_def)
    next
      case (Some r)
      then have "first_diff (solve_times ?sb) (solve_times ?sa) = Some (\<not> r)"
        by (simp add: first_diff_flip[of "solve_times ?sb"])
      with Some True show ?thesis by (cases r) (auto simp: compare_teams_def Let_def)
    qed
  qed
qed

lemma compare_teams_asym: "compare_teams T a b inc \<Longrightarrow> \<not> compare_teams T b a inc"
proof
  assume 1: "compare_teams T a b inc" and 2: "compare_teams T b a inc"
  let ?sa = "calculate_team_stats (team_at T a) inc" and ?sb = "calculate_team_stats (team_at T b) inc"
  from 1 2 have eq: "solved_count ?sa = solved_count ?sb" "penalty_time ?sa = penalty_time ?sb"
    by (auto simp: compare_teams_chain Let_def)
  show False
  proof (cases "first_diff (solve_times ?sa) (solve_times ?sb)")
    case None
    then have "first_diff (solve_times ?sb) (solve_times ?sa) = None"
      by (simp add: first_diff_flip[of "solve_times ?sb"])
    with None eq 1 2 show False by (auto simp: compare_teams_chain Let_def)
  next
    case (Some r)
    then have "first_diff (solve_times ?sb) (solve_times ?sa) = Some (\<not> r)"
      by (simp add: first_diff_flip[of "solve_times ?sb"])
    with Some eq 1 2 show False by (auto simp: compare_teams_chain Let_def)
  qed
qed

lemma compare_teams_trans:
  assumes ab: "compare_teams T a b inc" and bc: "compare_teams T b c inc"
  shows "compare_teams T a c inc"
proof -
  let ?sa = "calculate_team_stats (team_at T a) inc"
  let ?sb = "calculate_team_stats (team_at T b) inc"
  let ?sc = "calculate_team_stats (team_at T c) inc"
  from ab have ab': "solved_count ?sa > solved_count ?sb
         \<or> (solved_count ?sa = solved_count ?sb
            \<and> (penalty_time ?sa < penalty_time ?sb
               \<or> (penalty_time ?sa = penalty_time ?sb
                  \<and> (first_diff (solve_times ?sa) (solve_times ?sb) = Some True
                     \<or> (first_diff (solve_times ?sa) (solve_times ?sb) = None \<and> a < b)))))"
    by (simp add: compare_teams_chain Let_def)
  from bc have bc': "solved_count ?sb > solved_count ?sc
         \<or> (solved_count ?sb = solved_count ?sc
            \<and> (penalty_time ?sb < penalty_time ?sc
               \<or> (penalty_time ?sb = penalty_time ?sc
                  \<and> (first_diff (solve_times ?sb) (solve_times ?sc) = Some True
                     \<or> (first_diff (solve_times ?sb) (solve_times ?sc) = None \<and> b < c)))))"
    by (simp add: compare_teams_chain Let_def)
  show ?thesis
  proof (cases "solved_count ?sa = solved_count ?sb \<and> solved_count ?sb = solved_count ?sc
                \<and> penalty_time ?sa = penalty_time ?sb \<and> penalty_time ?sb = penalty_time ?sc")
    case False
    with ab' bc' show ?thesis by (auto simp: compare_teams_chain Let_def)
  next
    case True
    have la: "int (length (solve_times ?sa)) = solved_count ?sa"
      and lb: "int (length (solve_times ?sb)) = solved_count ?sb"
      and lc: "int (length (solve_times ?sc)) = solved_count ?sc"
      by (rule calculate_team_stats_length)+
    from la lb lc True have len: "length (solve_times ?sa) = length (solve_times ?sb)"
      "length (solve_times ?sb) = length (solve_times ?sc)" by simp_all
    from ab' True have ab'': "first_diff (solve_times ?sa) (solve_times ?sb) = Some True
        \<or> (solve_times ?sa = solve_times ?sb \<and> a < b)"
      using first_diff_None_iff[OF len(1)] by auto
    from bc' True have bc'': "first_diff (solve_times ?sb) (solve_times ?sc) = Some True
        \<or> (solve_times ?sb = solve_times ?sc \<and> b < c)"
      using first_diff_None_iff[OF len(2)] by auto
    have "first_diff (solve_times ?sa) (solve_times ?sc) = Some True
        \<or> (first_diff (solve_times ?sa) (solve_times ?sc) = None \<and> a < c)"
    proof -
      consider (tt) "first_diff (solve_times ?sa) (solve_times ?sb) = Some True"
          "first_diff (solve_times ?sb) (solve_times ?sc) = Some True"
        | (te) "first_diff (solve_times ?sa) (solve_times ?sb) = Some True"
          "solve_times ?sb = solve_times ?sc"
        | (et) "solve_times ?sa = solve_times ?sb"
          "first_diff (solve_times ?sb) (solve_times ?sc) = Some True"
        | (ee) "solve_times ?sa = solve_times ?sb" "a < b" "solve_times ?sb = solve_times ?sc" "b < c"
        using ab'' bc'' by blast
      then show ?thesis
      proof cases
        case tt
        from first_diff_trans[OF len tt] show ?thesis by simp
      next
        case te
        then show ?thesis by simp
      next
        case et
        then show ?thesis by simp
      next
        case ee
        then have "solve_times ?sa = solve_times ?sc" "a < c" by auto
        then show ?thesis by (simp add: first_diff_None_iff)
      qed
    qed
    with True show ?thesis by (simp add: compare_teams_chain Let_def)
  qed
qed

section \<open>Lemmas on sorting with a comparator\<close>

lemma strict_total_asym: "strict_total lt \<Longrightarrow> lt x y \<Longrightarrow> \<not> lt y x"
  unfolding strict_total_def by blast

lemma set_sort_insert: "set (sort_insert lt x xs) = insert x (set xs)"
  by (induction xs) auto

lemma sorted_wrt_sort_insert:
  assumes "strict_total lt"
  shows "sorted_wrt lt ys \<Longrightarrow> x \<notin> set ys \<Longrightarrow> sorted_wrt lt (sort_insert lt x ys)"
proof (induction ys)
  case Nil
  then show ?case by simp
next
  case (Cons y ys)
  show ?case
  proof (cases "lt x y")
    case True
    have "\<forall>z\<in>set ys. lt x z"
    proof
      fix z assume "z \<in> set ys"
      with Cons.prems(1) have "lt y z" by simp
      with True assms show "lt x z" unfolding strict_total_def by blast
    qed
    with True Cons.prems(1) show ?thesis by simp
  next
    case False
    from Cons.prems(2) have "x \<noteq> y" by simp
    with False assms have yx: "lt y x" unfolding strict_total_def by blast
    from Cons.prems have "sorted_wrt lt (sort_insert lt x ys)"
      by (intro Cons.IH) simp_all
    with False yx Cons.prems(1) show ?thesis by (simp add: set_sort_insert)
  qed
qed

lemma sorted_wrt_std_sort:
  assumes "strict_total lt"
  shows "distinct xs \<Longrightarrow> sorted_wrt lt (std_sort lt xs)"
proof (induction xs)
  case Nil
  then show ?case by simp
next
  case (Cons x xs)
  then have "sorted_wrt lt (std_sort lt xs)" and "x \<notin> set (std_sort lt xs)"
    by (simp_all add: set_std_sort)
  then show ?case by (simp add: sorted_wrt_sort_insert[OF assms])
qed

lemma sorted_wrt_unique:
  assumes "strict_total lt"
  shows "sorted_wrt lt ys \<Longrightarrow> sorted_wrt lt zs \<Longrightarrow> set ys = set zs \<Longrightarrow> ys = zs"
proof (induction ys arbitrary: zs)
  case Nil
  then show ?case by simp
next
  case (Cons y ys)
  from Cons.prems(3) obtain z zs' where zs: "zs = z # zs'" by (cases zs) simp_all
  have irr: "\<And>x. \<not> lt x x" using assms unfolding strict_total_def by blast
  from Cons.prems(1) have ys: "sorted_wrt lt ys" and y_lt: "\<forall>x\<in>set ys. lt y x" by simp_all
  from Cons.prems(2) zs have zs': "sorted_wrt lt zs'" and z_lt: "\<forall>x\<in>set zs'. lt z x"
    by simp_all
  from Cons.prems(3) zs have sets: "insert y (set ys) = insert z (set zs')" by simp
  have yz: "y = z"
  proof (rule ccontr)
    assume ne: "y \<noteq> z"
    from sets have "y \<in> insert z (set zs')" by blast
    with ne have "y \<in> set zs'" by simp
    with z_lt have 1: "lt z y" by blast
    from sets have "z \<in> insert y (set ys)" by blast
    with ne have "z \<in> set ys" by simp
    with y_lt have 2: "lt y z" by blast
    from 1 2 strict_total_asym[OF assms] show False by blast
  qed
  from y_lt irr have ny: "y \<notin> set ys" by blast
  from z_lt irr yz have nz: "y \<notin> set zs'" by blast
  from sets yz ny nz have "set ys = set zs'" by (simp add: insert_ident)
  from Cons.IH[OF ys zs' this] yz zs show ?case by simp
qed

text \<open>
  Whatever algorithm \<open>std::sort\<close> runs, its result is a permutation of its input that is
  sorted for the comparator; there is one such list, the one of \<open>std_sort\<close>.
\<close>

lemma std_sort_unique:
  assumes "strict_total lt" "sorted_wrt lt ys" "mset ys = mset xs"
  shows "ys = std_sort lt xs"
proof -
  have irr: "\<And>x. \<not> lt x x" using assms(1) unfolding strict_total_def by blast
  have "distinct ys"
    using assms(2) irr by (induction ys) auto
  with mset_eq_imp_distinct_iff[OF assms(3)] have "distinct xs" by simp
  then have "sorted_wrt lt (std_sort lt xs)" by (rule sorted_wrt_std_sort[OF assms(1)])
  moreover have "set ys = set (std_sort lt xs)"
    using mset_eq_setD[OF assms(3)] by (simp add: set_std_sort)
  ultimately show ?thesis using assms(2) by (intro sorted_wrt_unique[OF assms(1)])
qed

lemma sorted_wrt_index_card:
  assumes "strict_total lt" "sorted_wrt lt ys" "k < length ys"
  shows "card {x \<in> set ys. lt x (ys ! k)} = k"
proof -
  have irr: "\<And>x. \<not> lt x x" using assms(1) unfolding strict_total_def by blast
  have dist: "distinct ys" using assms(2) irr by (induction ys) auto
  have "{x \<in> set ys. lt x (ys ! k)} = set (take k ys)"
  proof (rule set_eqI)
    fix x
    show "x \<in> {x \<in> set ys. lt x (ys ! k)} \<longleftrightarrow> x \<in> set (take k ys)"
    proof
      assume "x \<in> {x \<in> set ys. lt x (ys ! k)}"
      then obtain i where i: "i < length ys" "x = ys ! i" "lt (ys ! i) (ys ! k)"
        by (auto simp: in_set_conv_nth)
      have "i < k"
      proof (rule ccontr)
        assume "\<not> i < k"
        then consider "i = k" | "k < i" by linarith
        then show False
        proof cases
          case 1
          with i(3) irr show False by simp
        next
          case 2
          with assms(2) i(1) have "lt (ys ! k) (ys ! i)" by (simp add: sorted_wrt_iff_nth_less)
          with i(3) strict_total_asym[OF assms(1)] show False by blast
        qed
      qed
      with i(1,2) show "x \<in> set (take k ys)" by (auto simp: in_set_conv_nth)
    next
      assume "x \<in> set (take k ys)"
      then obtain i where i: "i < k" "i < length ys" "x = ys ! i"
        by (auto simp: in_set_conv_nth)
      with assms(2,3) have "lt (ys ! i) (ys ! k)" by (simp add: sorted_wrt_iff_nth_less)
      with i show "x \<in> {x \<in> set ys. lt x (ys ! k)}" by simp
    qed
  qed
  moreover have "card (set (take k ys)) = k"
    using dist assms(3) by (simp add: distinct_card)
  ultimately show ?thesis by simp
qed

section \<open>The order of the ranking pass\<close>

lemma compare_teams_strict_total: "strict_total (\<lambda>a b. compare_teams T a b inc)"
  unfolding strict_total_def
  using compare_teams_irrefl compare_teams_trans compare_teams_total by blast

lemma sorted_teams_sorted:
  "distinct (team_order s) \<Longrightarrow>
   sorted_wrt (\<lambda>a b. compare_teams (teams s) a b False) (sorted_teams s)"
  unfolding sorted_teams_def
  by (rule sorted_wrt_std_sort[OF compare_teams_strict_total])

lemma rank_of_flush_card:
  assumes "distinct (team_order s)" "n \<in> set (team_order s)"
  shows "rank_of (flush_scoreboard s) n
           = 1 + int (card {x \<in> set (team_order s). compare_teams (teams s) x n False})"
proof -
  from assms(2) obtain k where k: "k < length (sorted_teams s)" "n = sorted_teams s ! k"
    by (auto simp: in_set_conv_nth set_sorted_teams[symmetric])
  from sorted_wrt_index_card[OF compare_teams_strict_total sorted_teams_sorted[OF assms(1)] k(1)]
  have "card {x \<in> set (team_order s). compare_teams (teams s) x n False} = k"
    by (simp add: k(2) set_sorted_teams)
  moreover from rank_of_flush_nth[OF assms(1), of k] k
  have "rank_of (flush_scoreboard s) n = 1 + int k"
    by (simp add: length_sorted_teams)
  ultimately show ?thesis by simp
qed

lemma rank_of_flush_less:
  assumes "distinct (team_order s)" "a \<in> set (team_order s)" "b \<in> set (team_order s)"
  shows "rank_of (flush_scoreboard s) a < rank_of (flush_scoreboard s) b
           \<longleftrightarrow> compare_teams (teams s) a b False"
proof -
  let ?ns = "sorted_teams s" and ?lt = "\<lambda>a b. compare_teams (teams s) a b False"
  from assms(2) obtain i where i: "i < length ?ns" "a = ?ns ! i"
    by (auto simp: in_set_conv_nth set_sorted_teams[symmetric])
  from assms(3) obtain j where j: "j < length ?ns" "b = ?ns ! j"
    by (auto simp: in_set_conv_nth set_sorted_teams[symmetric])
  note sorted = sorted_teams_sorted[OF assms(1)]
  from rank_of_flush_nth[OF assms(1), of i] rank_of_flush_nth[OF assms(1), of j] i j
  have ranks: "rank_of (flush_scoreboard s) a < rank_of (flush_scoreboard s) b \<longleftrightarrow> i < j"
    by (simp add: length_sorted_teams)
  have "i < j \<longleftrightarrow> ?lt a b"
  proof
    assume "i < j"
    with sorted j(1) i(2) j(2) show "?lt a b" by (simp add: sorted_wrt_iff_nth_less)
  next
    assume ab: "?lt a b"
    show "i < j"
    proof (rule ccontr)
      assume "\<not> i < j"
      then consider "i = j" | "j < i" by linarith
      then show False
      proof cases
        case 1
        with ab i(2) j(2) compare_teams_irrefl show False by simp
      next
        case 2
        with sorted i(1) i(2) j(2) have "?lt b a" by (simp add: sorted_wrt_iff_nth_less)
        with ab compare_teams_asym show False by blast
      qed
    qed
  qed
  with ranks show ?thesis by simp
qed

lemma sorted_rev_solve_times: "sorted (rev (solve_times (calculate_team_stats t inc)))"
  by (simp add: calculate_team_stats_def Let_def)

section \<open>Lemmas on sorted maps\<close>

lemma keys_map_set: "fst ` set (map_set k v m) = insert k (fst ` set m)"
  by (simp add: dom_map_of_conv_image_fst[symmetric] map_of_map_set)

lemma sorted_keys_Cons:
  "sorted_keys ((k, v) # m) \<longleftrightarrow> (\<forall>e\<in>set m. k < fst e) \<and> sorted_keys m"
  by (auto simp: sorted_keys_def)

lemma sorted_keys_map_set: "sorted_keys m \<Longrightarrow> sorted_keys (map_set k v m)"
proof (induction m)
  case Nil
  then show ?case by (simp add: sorted_keys_def)
next
  case (Cons e m)
  obtain k' v' where e: "e = (k', v')" by (cases e)
  from Cons.prems e have lt: "\<forall>x\<in>set m. k' < fst x" and sm: "sorted_keys m"
    by (simp_all add: sorted_keys_Cons)
  show ?case
  proof (cases "k = k'")
    case True
    with lt sm e show ?thesis by (simp add: sorted_keys_Cons)
  next
    case ne: False
    show ?thesis
    proof (cases "k < k'")
      case True
      have "\<forall>x\<in>set m. k < fst x"
      proof
        fix x assume "x \<in> set m"
        with lt have "k' < fst x" by blast
        with True show "k < fst x" by simp
      qed
      with True ne lt sm e show ?thesis by (simp add: sorted_keys_Cons)
    next
      case False
      with ne have gt: "k' < k" by simp
      have "\<forall>x\<in>set (map_set k v m). k' < fst x"
      proof
        fix x assume "x \<in> set (map_set k v m)"
        then have "fst x \<in> fst ` set (map_set k v m)" by (rule imageI)
        then have "fst x = k \<or> fst x \<in> fst ` set m" by (simp add: keys_map_set)
        with gt lt show "k' < fst x" by auto
      qed
      with ne False e Cons.IH[OF sm] show ?thesis by (simp add: sorted_keys_Cons)
    qed
  qed
qed

lemma filter_mset_other_keys:
  "\<forall>e\<in>set m. fst e \<noteq> k \<Longrightarrow> filter_mset (\<lambda>e. fst e \<noteq> k) (mset m) = mset m"
  by (induction m) auto

lemma mset_map_set:
  "sorted_keys m \<Longrightarrow>
   mset (map_set k v m) = add_mset (k, v) (filter_mset (\<lambda>e. fst e \<noteq> k) (mset m))"
proof (induction m)
  case Nil
  then show ?case by simp
next
  case (Cons e m)
  obtain k' v' where e: "e = (k', v')" by (cases e)
  from Cons.prems e have lt: "\<forall>x\<in>set m. k' < fst x" and sm: "sorted_keys m"
    by (simp_all add: sorted_keys_Cons)
  show ?case
  proof (cases "k = k'")
    case True
    with lt have "\<forall>x\<in>set m. fst x \<noteq> k" by auto
    then have "filter_mset (\<lambda>e. fst e \<noteq> k) (mset m) = mset m" by (rule filter_mset_other_keys)
    with True e show ?thesis by simp
  next
    case ne: False
    show ?thesis
    proof (cases "k < k'")
      case True
      have "\<forall>x\<in>set m. fst x \<noteq> k"
      proof
        fix x assume "x \<in> set m"
        with lt have "k' < fst x" by blast
        with True show "fst x \<noteq> k" by auto
      qed
      then have "filter_mset (\<lambda>e. fst e \<noteq> k) (mset m) = mset m" by (rule filter_mset_other_keys)
      with True ne e show ?thesis by simp
    next
      case False
      with ne e Cons.IH[OF sm] show ?thesis by simp
    qed
  qed
qed

lemma mset_lookup_Some:
  "sorted_keys m \<Longrightarrow> map_of m k = Some v \<Longrightarrow>
   mset m = add_mset (k, v) (filter_mset (\<lambda>e. fst e \<noteq> k) (mset m))"
proof (induction m)
  case Nil
  then show ?case by simp
next
  case (Cons e m)
  obtain k' v' where e: "e = (k', v')" by (cases e)
  from Cons.prems e have lt: "\<forall>x\<in>set m. k' < fst x" and sm: "sorted_keys m"
    by (simp_all add: sorted_keys_Cons)
  show ?case
  proof (cases "k = k'")
    case True
    with lt have "\<forall>x\<in>set m. fst x \<noteq> k" by auto
    then have "filter_mset (\<lambda>e. fst e \<noteq> k) (mset m) = mset m" by (rule filter_mset_other_keys)
    with True e Cons.prems(2) show ?thesis by simp
  next
    case False
    with Cons.prems(2) e have "map_of m k = Some v" by simp
    from Cons.IH[OF sm this] False e show ?thesis by simp
  qed
qed

lemma mset_lookup_None:
  "map_of m k = None \<Longrightarrow> filter_mset (\<lambda>e. fst e \<noteq> k) (mset m) = mset m"
  by (induction m) (auto split: if_splits)

lemma map_of_sorted_in_set:
  "sorted_keys m \<Longrightarrow> (k, v) \<in> set m \<Longrightarrow> map_of m k = Some v"
proof (induction m)
  case Nil
  then show ?case by simp
next
  case (Cons e m)
  obtain k' v' where e: "e = (k', v')" by (cases e)
  from Cons.prems e have lt: "\<forall>x\<in>set m. k' < fst x" and sm: "sorted_keys m"
    by (simp_all add: sorted_keys_Cons)
  show ?case
  proof (cases "(k, v) = e")
    case True
    with e show ?thesis by simp
  next
    case False
    with Cons.prems(2) have in_m: "(k, v) \<in> set m" by simp
    with lt have "k' < k" by force
    then have "k \<noteq> k'" by simp
    with Cons.IH[OF sm in_m] e show ?thesis by simp
  qed
qed

text \<open>
  A write \<open>m[k] = v\<close> seen through a predicate on the entries: the entries under other keys
  stay, the entry of \<open>k\<close> is replaced.
\<close>

lemma filter_mset_map_set:
  assumes "sorted_keys m"
  shows "filter_mset Q (mset (map_set k v m))
           = (if Q (k, v) then {#(k, v)#} else {#})
             + filter_mset Q (filter_mset (\<lambda>e. fst e \<noteq> k) (mset m))"
  by (simp add: mset_map_set[OF assms])

lemma filter_mset_lookup:
  assumes "sorted_keys m" "\<not> Q (k, d)"
  shows "filter_mset Q (mset m)
           = (if Q (k, map_at d m k) then {#(k, map_at d m k)#} else {#})
             + filter_mset Q (filter_mset (\<lambda>e. fst e \<noteq> k) (mset m))"
proof (cases "map_of m k")
  case None
  with assms(2) mset_lookup_None[OF None] show ?thesis by (simp add: map_at_def)
next
  case (Some v)
  have "filter_mset Q (mset m)
          = filter_mset Q (add_mset (k, v) (filter_mset (\<lambda>e. fst e \<noteq> k) (mset m)))"
    using mset_lookup_Some[OF assms(1) Some] by simp
  with Some show ?thesis by (simp add: map_at_def)
qed

lemma sorted_keys_map_touch: "sorted_keys m \<Longrightarrow> sorted_keys (map_touch d m k)"
  by (cases "map_of m k") (simp_all add: map_touch_def sorted_keys_map_set)

lemma filter_mset_map_touch:
  assumes "sorted_keys m" "\<not> Q (k, d)"
  shows "filter_mset Q (mset (map_touch d m k)) = filter_mset Q (mset m)"
proof (cases "map_of m k")
  case None
  with assms mset_lookup_None[OF None] show ?thesis
    by (simp add: map_touch_def mset_map_set)
next
  case (Some v)
  then show ?thesis by (simp add: map_touch_def)
qed

lemma set_map_touch: "set m \<subseteq> set (map_touch d m k)"
proof (cases "map_of m k")
  case None
  have "set m \<subseteq> set (map_set k d m)" if "map_of m k = None" for m :: "'a std_map"
    using that by (induction m) (auto split: if_splits)
  with None show ?thesis by (simp add: map_touch_def)
next
  case (Some v)
  then show ?thesis by (simp add: map_touch_def)
qed

section \<open>Lemmas on the statistics\<close>

lemma stats_loop_eq:
  "stats_loop inc m st =
     st\<lparr>solved_count := solved_count st + int (length (filter (\<lambda>e. counted inc (snd e)) m)),
        penalty_time := penalty_time st
          + sum_list (map (\<lambda>e. solve_time (snd e)
                                + 20 * wrong_attempts_before_first_success (snd e))
                        (filter (\<lambda>e. counted inc (snd e)) m)),
        solve_times := solve_times st
          @ map (\<lambda>e. solve_time (snd e)) (filter (\<lambda>e. counted inc (snd e)) m)\<rparr>"
  by (induction inc m st rule: stats_loop.induct) simp_all

text \<open>
  The statistics of a team are a function of the multiset of its counted entries: the order
  in which the loop visits them does not matter.
\<close>

lemma calculate_team_stats_mset:
  "calculate_team_stats t inc =
     \<lparr>solved_count = int (size (filter_mset (\<lambda>e. counted inc (snd e)) (mset (problems t)))),
      penalty_time =
        sum_mset (image_mset (\<lambda>e. solve_time (snd e)
                                    + 20 * wrong_attempts_before_first_success (snd e))
                    (filter_mset (\<lambda>e. counted inc (snd e)) (mset (problems t)))),
      solve_times =
        rev (sorted_list_of_multiset
               (image_mset (\<lambda>e. solve_time (snd e))
                  (filter_mset (\<lambda>e. counted inc (snd e)) (mset (problems t)))))\<rparr>"
proof -
  let ?F = "filter (\<lambda>e. counted inc (snd e)) (problems t)"
  have 1: "int (length ?F)
      = int (size (filter_mset (\<lambda>e. counted inc (snd e)) (mset (problems t))))"
    by (simp flip: mset_filter)
  have 2: "sum_list (map (\<lambda>e. solve_time (snd e)
                                + 20 * wrong_attempts_before_first_success (snd e)) ?F)
      = sum_mset (image_mset (\<lambda>e. solve_time (snd e)
                                    + 20 * wrong_attempts_before_first_success (snd e))
                    (filter_mset (\<lambda>e. counted inc (snd e)) (mset (problems t))))"
    by (simp flip: mset_filter mset_map sum_mset_sum_list)
  have 3: "sort (map (\<lambda>e. solve_time (snd e)) ?F)
      = sorted_list_of_multiset
               (image_mset (\<lambda>e. solve_time (snd e))
                  (filter_mset (\<lambda>e. counted inc (snd e)) (mset (problems t))))"
    by (simp flip: mset_filter mset_map sorted_list_of_multiset_mset)
  show ?thesis
    unfolding calculate_team_stats_def Let_def stats_loop_eq
    using 1 2 3 by simp
qed

lemma calculate_team_stats_cong:
  assumes "filter_mset (\<lambda>e. counted inc (snd e)) (mset (problems t'))
             = filter_mset (\<lambda>e. counted inc (snd e)) (mset (problems t))"
  shows "calculate_team_stats t' inc = calculate_team_stats t inc"
  unfolding calculate_team_stats_mset assms ..

lemma calculate_team_stats_add:
  assumes "filter_mset (\<lambda>e. counted inc (snd e)) (mset (problems t'))
             = add_mset x (filter_mset (\<lambda>e. counted inc (snd e)) (mset (problems t)))"
  shows "solved_count (calculate_team_stats t' inc) = solved_count (calculate_team_stats t inc) + 1"
  unfolding calculate_team_stats_mset assms by simp

lemma compare_teams_cong:
  assumes "calculate_team_stats (team_at T' a) inc = calculate_team_stats (team_at T a) inc"
    and "calculate_team_stats (team_at T' b) inc = calculate_team_stats (team_at T b) inc"
  shows "compare_teams T' a b inc = compare_teams T a b inc"
  unfolding compare_teams_def assms ..

section \<open>Lemmas on one iteration of the scroll loop\<close>

lemma replay_frozen: "frozen (fst (replay p subs ps k)) = frozen ps"
  by (induction subs arbitrary: ps k) simp_all

lemma reveal_not_frozen: "\<not> frozen (reveal p subs ps)"
proof -
  obtain ps' k where r: "replay p subs (ps\<lparr>frozen := False\<rparr>) 0 = (ps', k)"
    by (cases "replay p subs (ps\<lparr>frozen := False\<rparr>) 0")
  from replay_frozen[of p subs "ps\<lparr>frozen := False\<rparr>" 0] r have "\<not> frozen ps'" by simp
  with r show ?thesis by (simp add: reveal_def)
qed

lemma reveal_counted: "counted False ps \<Longrightarrow> reveal p subs ps = ps"
  by (simp add: counted_def reveal_def replay_solved)

lemma sorted_keys_find_unfreeze:
  "sorted_keys P \<Longrightarrow> sorted_keys (snd (find_unfreeze pnames P))"
  by (induction pnames arbitrary: P) (simp_all add: Let_def sorted_keys_map_touch)

lemma filter_mset_find_unfreeze:
  assumes "\<forall>k. \<not> Q (k, ProblemStatus_init)"
  shows "sorted_keys P \<Longrightarrow>
         filter_mset Q (mset (snd (find_unfreeze pnames P))) = filter_mset Q (mset P)"
proof (induction pnames arbitrary: P)
  case Nil
  then show ?case by simp
next
  case (Cons pname pnames)
  from assms have nq: "\<not> Q (pname, ProblemStatus_init)" by blast
  note t = filter_mset_map_touch[of P Q pname ProblemStatus_init, OF Cons.prems nq]
  from Cons.IH[OF sorted_keys_map_touch[OF Cons.prems, of ProblemStatus_init pname]] t
  show ?case by (simp add: Let_def)
qed

text \<open>
  The entries of the revealed team before and after the reveal, seen through a predicate
  that the default status does not satisfy: they differ in the entry of the revealed
  problem only.
\<close>

lemma revealed_filter:
  assumes "sorted_keys (problems (team_at (teams s) (lowest_team s)))"
    and "\<forall>k. \<not> Q (k, ProblemStatus_init)"
  shows "\<exists>R. filter_mset Q (mset (problems (team_at (revealed_teams s) (lowest_team s))))
               = (if Q (unfreeze_problem s,
                        status_of (s\<lparr>teams := revealed_teams s\<rparr>) (lowest_team s)
                          (unfreeze_problem s))
                  then {#(unfreeze_problem s,
                          status_of (s\<lparr>teams := revealed_teams s\<rparr>) (lowest_team s)
                            (unfreeze_problem s))#}
                  else {#}) + R
           \<and> filter_mset Q (mset (problems (team_at (teams s) (lowest_team s))))
               = (if Q (unfreeze_problem s, status_of s (lowest_team s) (unfreeze_problem s))
                  then {#(unfreeze_problem s, status_of s (lowest_team s) (unfreeze_problem s))#}
                  else {#}) + R"
proof -
  let ?L = "lowest_team s" and ?p = "unfreeze_problem s"
  let ?P = "problems (team_at (teams s) ?L)"
  let ?P1 = "snd (find_unfreeze (problem_names s) ?P)"
  let ?ps0 = "status_of s ?L ?p"
  let ?ps1 = "reveal ?p (history_of s ?L) ?ps0"
  let ?R = "filter_mset Q (filter_mset (\<lambda>e. fst e \<noteq> ?p) (mset ?P1))"
  have s1: "sorted_keys ?P1" using assms(1) by (rule sorted_keys_find_unfreeze)
  have P': "problems (team_at (revealed_teams s) ?L) = map_set ?p ?ps1 ?P1"
    by (simp add: revealed_team_fields)
  have st1: "status_of (s\<lparr>teams := revealed_teams s\<rparr>) ?L ?p = ?ps1"
    by (simp add: status_of_def P' map_at_map_set)
  have at: "status_at ?P1 ?p = ?ps0" by (simp add: status_of_def find_unfreeze_at)
  from assms(2) have nq: "\<not> Q (?p, ProblemStatus_init)" by blast
  have a: "filter_mset Q (mset (map_set ?p ?ps1 ?P1))
             = (if Q (?p, ?ps1) then {#(?p, ?ps1)#} else {#}) + ?R"
    by (rule filter_mset_map_set[OF s1])
  have "filter_mset Q (mset ?P) = filter_mset Q (mset ?P1)"
    using filter_mset_find_unfreeze[OF assms(2) assms(1)] by simp
  also have "\<dots> = (if Q (?p, ?ps0) then {#(?p, ?ps0)#} else {#}) + ?R"
    using filter_mset_lookup[of ?P1 Q ?p ProblemStatus_init, OF s1 nq] at
    by simp
  finally have b: "filter_mset Q (mset ?P) = (if Q (?p, ?ps0) then {#(?p, ?ps0)#} else {#}) + ?R" .
  from a b show ?thesis unfolding P' st1 by blast
qed

lemma revealed_stats:
  assumes "sorted_keys (problems (team_at (teams s) (lowest_team s)))"
  shows "calculate_team_stats (team_at (revealed_teams s) (lowest_team s)) False
           = calculate_team_stats (team_at (teams s) (lowest_team s)) False
       \<or> solved_count (calculate_team_stats (team_at (revealed_teams s) (lowest_team s)) False)
           = solved_count (calculate_team_stats (team_at (teams s) (lowest_team s)) False) + 1"
proof -
  let ?L = "lowest_team s" and ?p = "unfreeze_problem s"
  let ?Q = "\<lambda>e :: string \<times> ProblemStatus. counted False (snd e)"
  let ?ps0 = "status_of s ?L ?p"
  let ?ps1 = "status_of (s\<lparr>teams := revealed_teams s\<rparr>) ?L ?p"
  let ?F' = "filter_mset ?Q (mset (problems (team_at (revealed_teams s) ?L)))"
  let ?F = "filter_mset ?Q (mset (problems (team_at (teams s) ?L)))"
  have nq: "\<forall>k. \<not> ?Q (k, ProblemStatus_init)" by (simp add: counted_def ProblemStatus_init_def)
  from revealed_filter[of s ?Q, OF assms nq]
  have "\<exists>R. ?F' = (if counted False ?ps1 then {#(?p, ?ps1)#} else {#}) + R
           \<and> ?F = (if counted False ?ps0 then {#(?p, ?ps0)#} else {#}) + R"
    by (simp only: snd_conv)
  then obtain R where
    f': "?F' = (if counted False ?ps1 then {#(?p, ?ps1)#} else {#}) + R" and
    f: "?F = (if counted False ?ps0 then {#(?p, ?ps0)#} else {#}) + R"
    by blast
  have ps1: "?ps1 = reveal ?p (history_of s ?L) ?ps0"
    by (simp add: status_of_def revealed_team_fields map_at_map_set)
  show ?thesis
  proof (cases "counted False ?ps0")
    case True
    with ps1 have eq: "?ps1 = ?ps0" by (simp add: reveal_counted)
    have "?F' = ?F" unfolding f' f eq ..
    then have "calculate_team_stats (team_at (revealed_teams s) ?L) False
                 = calculate_team_stats (team_at (teams s) ?L) False"
      by (rule calculate_team_stats_cong)
    then show ?thesis by (rule disjI1)
  next
    case c0: False
    show ?thesis
    proof (cases "counted False ?ps1")
      case True
      have "?F' = add_mset (?p, ?ps1) ?F" unfolding f' f using True c0 by simp
      then have "solved_count (calculate_team_stats (team_at (revealed_teams s) ?L) False)
                   = solved_count (calculate_team_stats (team_at (teams s) ?L) False) + 1"
        by (rule calculate_team_stats_add)
      then show ?thesis by (rule disjI2)
    next
      case False
      have "?F' = ?F" unfolding f' f using False c0 by simp
      then have "calculate_team_stats (team_at (revealed_teams s) ?L) False
                 = calculate_team_stats (team_at (teams s) ?L) False"
      by (rule calculate_team_stats_cong)
    then show ?thesis by (rule disjI1)
    qed
  qed
qed

lemma revealed_team_other: "n \<noteq> lowest_team s \<Longrightarrow> team_at (revealed_teams s) n = team_at (teams s) n"
  by (simp add: map_at_def revealed_other)

lemma revealed_compare_other:
  "x \<noteq> lowest_team s \<Longrightarrow> y \<noteq> lowest_team s \<Longrightarrow>
   compare_teams (revealed_teams s) x y False = compare_teams (teams s) x y False"
  by (intro compare_teams_cong) (simp_all add: revealed_team_other)

lemma revealed_compare_up:
  assumes "sorted_keys (problems (team_at (teams s) (lowest_team s)))"
    and "compare_teams (teams s) (lowest_team s) x False"
  shows "compare_teams (revealed_teams s) (lowest_team s) x False"
proof -
  from assms(2) compare_teams_irrefl have ne: "x \<noteq> lowest_team s" by blast
  then have x: "team_at (revealed_teams s) x = team_at (teams s) x" by (rule revealed_team_other)
  from revealed_stats[OF assms(1)] show ?thesis
  proof
    assume "calculate_team_stats (team_at (revealed_teams s) (lowest_team s)) False
           = calculate_team_stats (team_at (teams s) (lowest_team s)) False"
    with x have "compare_teams (revealed_teams s) (lowest_team s) x False
                   = compare_teams (teams s) (lowest_team s) x False"
      by (intro compare_teams_cong) simp_all
    with assms(2) show ?thesis by simp
  next
    assume "solved_count (calculate_team_stats (team_at (revealed_teams s) (lowest_team s)) False)
           = solved_count (calculate_team_stats (team_at (teams s) (lowest_team s)) False) + 1"
    with x assms(2) show ?thesis by (auto simp: compare_teams_chain Let_def)
  qed
qed

lemma revealed_compare_down:
  assumes "sorted_keys (problems (team_at (teams s) (lowest_team s)))"
    and "compare_teams (revealed_teams s) x (lowest_team s) False"
  shows "compare_teams (teams s) x (lowest_team s) False"
proof (rule ccontr)
  assume n: "\<not> compare_teams (teams s) x (lowest_team s) False"
  from assms(2) compare_teams_irrefl have "x \<noteq> lowest_team s" by blast
  with n compare_teams_total[of x "lowest_team s" "teams s" False]
  have "compare_teams (teams s) (lowest_team s) x False" by blast
  from revealed_compare_up[OF assms(1) this] assms(2) compare_teams_asym show False by blast
qed

section \<open>Lemmas on the ranks across an iteration\<close>

lemma find_lowest_in:
  "find_lowest T ns \<noteq> [] \<Longrightarrow>
   find_lowest T ns \<in> set ns \<and> has_frozen (team_at T (find_lowest T ns))"
  by (induction ns) (auto split: if_splits)

lemma lowest_team_in:
  "lowest_team s \<noteq> [] \<Longrightarrow>
   lowest_team s \<in> set (team_order s) \<and> has_frozen (team_at (teams s) (lowest_team s))"
  using find_lowest_in[of "teams s" "rev (sorted_teams s)"]
  by (simp add: lowest_team_def set_sorted_teams)

lemma calculate_team_stats_problems:
  "problems t' = problems t \<Longrightarrow> calculate_team_stats t' inc = calculate_team_stats t inc"
  by (simp add: calculate_team_stats_def)

lemma flush_compare:
  "compare_teams (teams (flush_scoreboard s)) a b inc = compare_teams (teams s) a b inc"
  by (intro compare_teams_cong calculate_team_stats_problems)
     (simp_all add: flush_scoreboard_def assign_ranks_fields)

lemma sorted_teams_flush: "sorted_teams (flush_scoreboard s) = sorted_teams s"
  by (simp add: sorted_teams_def flush_compare team_order_flush)

lemma ranks_current_flush:
  assumes "distinct (team_order s)"
  shows "ranks_current (flush_scoreboard s)"
  unfolding ranks_current_def
proof
  fix n assume "n \<in> set (team_order (flush_scoreboard s))"
  then have n: "n \<in> set (team_order s)" by (simp add: team_order_flush)
  then obtain k where k: "k < length (team_order s)" "n = sorted_teams s ! k"
    by (auto simp: in_set_conv_nth set_sorted_teams[symmetric] length_sorted_teams)
  have d': "distinct (team_order (flush_scoreboard s))" using assms by (simp add: team_order_flush)
  from rank_of_flush_nth[OF d', of k] k
  have "rank_of (flush_scoreboard (flush_scoreboard s)) n = 1 + int k"
    by (simp add: sorted_teams_flush team_order_flush)
  with rank_of_flush_nth[OF assms k(1)] k(2)
  show "rank_of (flush_scoreboard s) n = rank_of (flush_scoreboard (flush_scoreboard s)) n"
    by simp
qed

lemma scroll_step_ranks_current:
  assumes "distinct (team_order s)" "scroll_step s = Some (s', msg)"
  shows "ranks_current s'"
proof -
  from assms(2) have s': "s' = flush_scoreboard (s\<lparr>teams := revealed_teams s\<rparr>)"
    by (simp add: scroll_step_SomeD)
  have "distinct (team_order (s\<lparr>teams := revealed_teams s\<rparr>))" using assms(1) by simp
  then show ?thesis unfolding s' by (rule ranks_current_flush)
qed

lemma revealed_rank: "ranking (team_at (revealed_teams s) n) = rank_of s n"
proof (cases "n = lowest_team s")
  case True
  then show ?thesis by (simp add: revealed_team_fields)
next
  case False
  then show ?thesis by (simp add: revealed_team_other rank_of_def)
qed

lemma old_rankings_fold:
  "map_at 0 (foldl (\<lambda>m n. map_set n (ranking (team_at T n)) m) m0 names) n
     = (if n \<in> set names then ranking (team_at T n) else map_at 0 m0 n)"
  by (induction names arbitrary: m0) (simp_all add: map_at_map_set)

lemma old_rankings_at:
  "n \<in> set names \<Longrightarrow> map_at 0 (old_rankings_of T names) n = ranking (team_at T n)"
  by (simp add: old_rankings_of_def old_rankings_fold)

lemma find_SomeD: "find P xs = Some x \<Longrightarrow> P x \<and> x \<in> set xs"
  by (induction xs) (auto split: if_splits)

lemma find_NoneD: "find P xs = None \<Longrightarrow> x \<in> set xs \<Longrightarrow> \<not> P x"
  by (induction xs) (auto split: if_splits)

text \<open>
  The ranks before and after an iteration, as numbers of teams that compare before: before
  the iteration in the old registry, after it in the registry with the revealed result.
\<close>

lemma rank_before_card:
  assumes "distinct (team_order s)" "ranks_current s" "n \<in> set (team_order s)"
  shows "rank_of s n = 1 + int (card {x \<in> set (team_order s). compare_teams (teams s) x n False})"
  using assms(2,3) rank_of_flush_card[OF assms(1,3)] by (simp add: ranks_current_def)

lemma rank_after_card:
  assumes "distinct (team_order s)" "scroll_step s = Some (s', msg)" "n \<in> set (team_order s)"
  shows "rank_of s' n
           = 1 + int (card {x \<in> set (team_order s). compare_teams (revealed_teams s) x n False})"
proof -
  let ?m = "s\<lparr>teams := revealed_teams s\<rparr>"
  from assms(2) have s': "s' = flush_scoreboard ?m" by (simp add: scroll_step_SomeD)
  have d: "distinct (team_order ?m)" and n: "n \<in> set (team_order ?m)" using assms(1,3) by simp_all
  from rank_of_flush_card[OF d n] show ?thesis by (simp add: s')
qed

lemma scroll_step_rank_le:
  assumes "distinct (team_order s)" "ranks_current s" "scroll_step s = Some (s', msg)"
    and "sorted_keys (problems (team_at (teams s) (lowest_team s)))"
  shows "rank_of s' (lowest_team s) \<le> rank_of s (lowest_team s)"
proof -
  let ?L = "lowest_team s" and ?O = "set (team_order s)"
  from assms(3) have "?L \<noteq> []" by (simp add: scroll_step_SomeD)
  then have L: "?L \<in> ?O" by (simp add: lowest_team_in)
  have "{x \<in> ?O. compare_teams (revealed_teams s) x ?L False}
          \<subseteq> {x \<in> ?O. compare_teams (teams s) x ?L False}"
    using revealed_compare_down[OF assms(4)] by blast
  moreover have "finite {x \<in> ?O. compare_teams (teams s) x ?L False}" by simp
  ultimately have "card {x \<in> ?O. compare_teams (revealed_teams s) x ?L False}
          \<le> card {x \<in> ?O. compare_teams (teams s) x ?L False}"
    by (intro card_mono)
  with rank_before_card[OF assms(1,2) L] rank_after_card[OF assms(1,3) L]
  show ?thesis by simp
qed

lemma scroll_step_rank_other:
  assumes "distinct (team_order s)" "ranks_current s" "scroll_step s = Some (s', msg)"
    and "sorted_keys (problems (team_at (teams s) (lowest_team s)))"
    and "n \<in> set (team_order s)" "n \<noteq> lowest_team s"
  shows "rank_of s' n = rank_of s n \<or> rank_of s' n = rank_of s n + 1"
proof -
  let ?L = "lowest_team s" and ?O = "set (team_order s)"
  let ?B = "{x \<in> ?O. x \<noteq> ?L \<and> compare_teams (teams s) x n False}"
  let ?A = "{x \<in> ?O. compare_teams (teams s) x n False}"
  let ?A' = "{x \<in> ?O. compare_teams (revealed_teams s) x n False}"
  from assms(3) have "?L \<noteq> []" by (simp add: scroll_step_SomeD)
  then have L: "?L \<in> ?O" by (simp add: lowest_team_in)
  have fin: "finite ?B" and nin: "?L \<notin> ?B" by simp_all
  have A: "?A = (if compare_teams (teams s) ?L n False then insert ?L ?B else ?B)"
    using L by auto
  have "?A' = (if compare_teams (revealed_teams s) ?L n False
               then insert ?L {x \<in> ?O. x \<noteq> ?L \<and> compare_teams (revealed_teams s) x n False}
               else {x \<in> ?O. x \<noteq> ?L \<and> compare_teams (revealed_teams s) x n False})"
    using L by auto
  moreover have "{x \<in> ?O. x \<noteq> ?L \<and> compare_teams (revealed_teams s) x n False} = ?B"
    using revealed_compare_other[OF _ assms(6)] by blast
  ultimately have A': "?A' = (if compare_teams (revealed_teams s) ?L n False
                              then insert ?L ?B else ?B)"
    by simp
  have up: "compare_teams (teams s) ?L n False \<Longrightarrow> compare_teams (revealed_teams s) ?L n False"
    by (rule revealed_compare_up[OF assms(4)])
  have "card ?A' = card ?A \<or> card ?A' = card ?A + 1"
  proof (cases "compare_teams (revealed_teams s) ?L n False")
    case True
    with A' have a': "card ?A' = card ?B + 1" using fin nin by simp
    show ?thesis
    proof (cases "compare_teams (teams s) ?L n False")
      case True
      with A have "card ?A = card ?B + 1" using fin nin by simp
      with a' show ?thesis by simp
    next
      case False
      with A have "card ?A = card ?B" by simp
      with a' show ?thesis by simp
    qed
  next
    case False
    with up have "\<not> compare_teams (teams s) ?L n False" by blast
    with A A' False show ?thesis by simp
  qed
  with rank_before_card[OF assms(1,2,5)] rank_after_card[OF assms(1,3,5)]
  show ?thesis by auto
qed

section \<open>Lemmas on the frozen statuses\<close>

lemma frozen_count_mset:
  "frozen_count P = size (filter_mset (\<lambda>e. frozen (snd e)) (mset P))"
  by (simp add: frozen_count_def flip: mset_filter)

lemma frozen_count_0_iff: "frozen_count P = 0 \<longleftrightarrow> (\<forall>e\<in>set P. \<not> frozen (snd e))"
  by (simp add: frozen_count_def filter_empty_conv)

lemma has_frozen_iff: "has_frozen t \<longleftrightarrow> (\<exists>e\<in>set (problems t). frozen (snd e))"
  by (simp add: has_frozen_def list_ex_iff)

lemma has_frozen_count: "has_frozen t \<longleftrightarrow> frozen_count (problems t) \<noteq> 0"
  by (simp add: has_frozen_iff frozen_count_0_iff)

lemma frozen_total_0_iff:
  "frozen_total s = 0 \<longleftrightarrow> (\<forall>n\<in>set (team_order s). \<not> has_frozen (team_at (teams s) n))"
  by (simp add: frozen_total_def has_frozen_count)

lemma find_lowest_Nil_iff:
  "[] \<notin> set ns \<Longrightarrow> find_lowest T ns = [] \<longleftrightarrow> (\<forall>n\<in>set ns. \<not> has_frozen (team_at T n))"
  by (induction ns) auto

text \<open>The loop reaches its \<open>break\<close> exactly when no team of \<open>team_order\<close> has a frozen status.\<close>

lemma scroll_step_None_iff:
  assumes "[] \<notin> set (team_order s)"
  shows "scroll_step s = None \<longleftrightarrow> frozen_total s = 0"
proof -
  have "scroll_step s = None \<longleftrightarrow> lowest_team s = []"
    by (simp add: scroll_step_def Let_def)
  also have "\<dots> \<longleftrightarrow> (\<forall>n\<in>set (rev (sorted_teams s)). \<not> has_frozen (team_at (teams s) n))"
    unfolding lowest_team_def using assms
    by (intro find_lowest_Nil_iff) (simp add: set_sorted_teams)
  also have "\<dots> \<longleftrightarrow> frozen_total s = 0"
    by (simp add: frozen_total_0_iff set_sorted_teams)
  finally show ?thesis .
qed

lemma status_at_frozen_in:
  "frozen (status_at P p) \<Longrightarrow> (p, status_at P p) \<in> set P"
  by (cases "map_of P p") (auto simp: map_at_def ProblemStatus_init_def dest: map_of_SomeD)

lemma status_at_sorted_in:
  "sorted_keys P \<Longrightarrow> (p, ps) \<in> set P \<Longrightarrow> status_at P p = ps"
  by (simp add: map_at_def map_of_sorted_in_set)

text \<open>
  The search for the problem to reveal succeeds when the team has a frozen status under a
  name of the configured set.
\<close>

lemma find_unfreeze_frozen:
  "sorted_keys P \<Longrightarrow> (k, ps) \<in> set P \<Longrightarrow> frozen ps \<Longrightarrow> k \<in> set pnames \<Longrightarrow>
   fst (find_unfreeze pnames P) \<in> set pnames \<and> frozen (status_at P (fst (find_unfreeze pnames P)))"
proof (induction pnames arbitrary: P)
  case Nil
  then show ?case by simp
next
  case (Cons pname pnames)
  let ?P' = "map_touch ProblemStatus_init P pname"
  have at: "\<And>q. status_at ?P' q = status_at P q" by (rule map_touch_at)
  show ?case
  proof (cases "frozen (status_at P pname)")
    case True
    then show ?thesis by (simp add: Let_def at)
  next
    case False
    from status_at_sorted_in[OF Cons.prems(1,2)] Cons.prems(3) False have "k \<noteq> pname" by auto
    with Cons.prems(4) have k: "k \<in> set pnames" by simp
    have s': "sorted_keys ?P'" using Cons.prems(1) by (rule sorted_keys_map_touch)
    from Cons.prems(2) set_map_touch[of P ProblemStatus_init pname] have in': "(k, ps) \<in> set ?P'"
      by blast
    from Cons.IH[OF s' in' Cons.prems(3) k] False show ?thesis
      by (simp add: Let_def at)
  qed
qed

lemma sum_list_change_one:
  "distinct xs \<Longrightarrow> L \<in> set xs \<Longrightarrow> (\<forall>n\<in>set xs. n \<noteq> L \<longrightarrow> f' n = f n) \<Longrightarrow>
   f' L + 1 = f L \<Longrightarrow> sum_list (map f' xs) + 1 = (sum_list (map f xs) :: nat)"
proof (induction xs)
  case Nil
  then show ?case by simp
next
  case (Cons x xs)
  show ?case
  proof (cases "x = L")
    case True
    with Cons.prems(1) have "L \<notin> set xs" by simp
    with Cons.prems(3) have "\<forall>n\<in>set xs. f' n = f n" by auto
    then have "map f' xs = map f xs" by simp
    then have "sum_list (map f' xs) = sum_list (map f xs)" by (rule arg_cong)
    moreover from True Cons.prems(4) have "f' x + 1 = f x" by simp
    ultimately show ?thesis by simp
  next
    case False
    with Cons.prems have "sum_list (map f' xs) + 1 = sum_list (map f xs)"
      by (intro Cons.IH) auto
    moreover from False Cons.prems(3) have "f' x = f x" by simp
    ultimately show ?thesis by simp
  qed
qed

text \<open>
  One iteration in a consistent state: the revealed status was frozen and unsolved, the
  frozen statuses of the revealed team lose exactly that one, and those of the other teams
  stay.
\<close>

lemma consistent_lowest:
  assumes "consistent s" "lowest_team s \<noteq> []"
  shows "lowest_team s \<in> set (team_order s)"
    and "sorted_keys (problems (team_at (teams s) (lowest_team s)))"
    and "unfreeze_problem s \<in> set (problem_names s)"
    and "frozen (status_of s (lowest_team s) (unfreeze_problem s))"
    and "\<not> solved (status_of s (lowest_team s) (unfreeze_problem s))"
proof -
  let ?L = "lowest_team s" and ?P = "problems (team_at (teams s) (lowest_team s))"
  from lowest_team_in[OF assms(2)] have L: "?L \<in> set (team_order s)"
    and hf: "has_frozen (team_at (teams s) ?L)" by simp_all
  from L show "?L \<in> set (team_order s)" .
  from assms(1) L show sk: "sorted_keys ?P" by (simp add: consistent_def)
  from assms(1) L have all: "\<forall>(p, ps)\<in>set ?P.
      frozen ps \<longrightarrow> is_frozen s \<and> \<not> solved ps \<and> p \<in> set (problem_names s)"
    by (simp add: consistent_def)
  from hf obtain k ps where kps: "(k, ps) \<in> set ?P" "frozen ps"
    by (auto simp: has_frozen_iff)
  with all have "k \<in> set (problem_names s)" by auto
  from find_unfreeze_frozen[OF sk kps this]
  show p: "unfreeze_problem s \<in> set (problem_names s)"
    and f: "frozen (status_of s ?L (unfreeze_problem s))"
    by (simp_all add: unfreeze_problem_def status_of_def)
  from f have "(unfreeze_problem s, status_of s ?L (unfreeze_problem s)) \<in> set ?P"
    unfolding status_of_def by (rule status_at_frozen_in)
  with all f show "\<not> solved (status_of s ?L (unfreeze_problem s))" by auto
qed

lemma revealed_frozen_mset:
  assumes "consistent s" "lowest_team s \<noteq> []"
  shows "filter_mset (\<lambda>e. frozen (snd e)) (mset (problems (team_at (teams s) (lowest_team s))))
           = add_mset (unfreeze_problem s, status_of s (lowest_team s) (unfreeze_problem s))
               (filter_mset (\<lambda>e. frozen (snd e))
                  (mset (problems (team_at (revealed_teams s) (lowest_team s)))))"
proof -
  let ?L = "lowest_team s" and ?p = "unfreeze_problem s"
  let ?Q = "\<lambda>e :: string \<times> ProblemStatus. frozen (snd e)"
  let ?ps0 = "status_of s ?L ?p"
  let ?ps1 = "status_of (s\<lparr>teams := revealed_teams s\<rparr>) ?L ?p"
  let ?F' = "filter_mset ?Q (mset (problems (team_at (revealed_teams s) ?L)))"
  let ?F = "filter_mset ?Q (mset (problems (team_at (teams s) ?L)))"
  note c = consistent_lowest[OF assms]
  have nq: "\<forall>k. \<not> ?Q (k, ProblemStatus_init)" by (simp add: ProblemStatus_init_def)
  from revealed_filter[of s ?Q, OF c(2) nq]
  have "\<exists>R. ?F' = (if frozen ?ps1 then {#(?p, ?ps1)#} else {#}) + R
           \<and> ?F = (if frozen ?ps0 then {#(?p, ?ps0)#} else {#}) + R"
    by (simp only: snd_conv)
  then obtain R where
    f': "?F' = (if frozen ?ps1 then {#(?p, ?ps1)#} else {#}) + R" and
    f: "?F = (if frozen ?ps0 then {#(?p, ?ps0)#} else {#}) + R"
    by blast
  have "?ps1 = reveal ?p (history_of s ?L) ?ps0"
    by (simp add: status_of_def revealed_team_fields map_at_map_set)
  then have n1: "\<not> frozen ?ps1" by (simp add: reveal_not_frozen)
  from f' n1 have "?F' = R" by simp
  with f c(4) show ?thesis by simp
qed

section \<open>Consistency is kept\<close>

lemma consistentI:
  assumes "distinct (team_order s)" "[] \<notin> set (team_order s)"
    and "\<And>n. n \<in> fst ` set (teams s) \<Longrightarrow> n \<in> set (team_order s)"
    and "\<And>n. n \<in> set (team_order s) \<Longrightarrow> map_count (teams s) n = 1"
    and "\<And>n. n \<in> set (team_order s) \<Longrightarrow> sorted_keys (problems (team_at (teams s) n))"
    and "\<And>n p ps. n \<in> set (team_order s) \<Longrightarrow> (p, ps) \<in> set (problems (team_at (teams s) n))
           \<Longrightarrow> frozen ps \<Longrightarrow> is_frozen s \<and> \<not> solved ps \<and> p \<in> set (problem_names s)"
  shows "consistent s"
  unfolding consistent_def using assms by (fastforce simp: image_iff)

lemma consistent_distinct: "consistent s \<Longrightarrow> distinct (team_order s)"
  by (simp add: consistent_def)

lemma consistent_nonempty: "consistent s \<Longrightarrow> [] \<notin> set (team_order s)"
  by (simp add: consistent_def)

lemma consistent_keys: "consistent s \<Longrightarrow> n \<in> fst ` set (teams s) \<Longrightarrow> n \<in> set (team_order s)"
  unfolding consistent_def by auto

lemma map_count_0_iff: "map_count m k = 0 \<longleftrightarrow> k \<notin> fst ` set m"
proof -
  have "map_count m k = 0 \<longleftrightarrow> map_of m k = None"
    by (simp add: map_count_def split: option.splits)
  then show ?thesis by (simp add: map_of_eq_None_iff)
qed

text \<open>The registered teams are the keys of the registry.\<close>

lemma consistent_registered:
  assumes "consistent s"
  shows "map_count (teams s) n = 0 \<longleftrightarrow> n \<notin> set (team_order s)"
proof
  assume "map_count (teams s) n = 0"
  show "n \<notin> set (team_order s)"
  proof
    assume "n \<in> set (team_order s)"
    with assms have "map_count (teams s) n = 1" by (simp add: consistent_def)
    with \<open>map_count (teams s) n = 0\<close> show False by simp
  qed
next
  assume "n \<notin> set (team_order s)"
  with consistent_keys[OF assms, of n] have "n \<notin> fst ` set (teams s)" by blast
  then show "map_count (teams s) n = 0" by (simp add: map_count_0_iff)
qed

lemma keys_assign_ranks: "fst ` set (assign_ranks i ns T) = set ns \<union> fst ` set T"
  by (induction i ns T rule: assign_ranks.induct) (auto simp: keys_map_set)

lemma consistent_count:
  "consistent s \<Longrightarrow> n \<in> set (team_order s) \<Longrightarrow> map_count (teams s) n = 1"
  by (simp add: consistent_def)

lemma consistent_sorted:
  "consistent s \<Longrightarrow> n \<in> set (team_order s) \<Longrightarrow> sorted_keys (problems (team_at (teams s) n))"
  by (simp add: consistent_def)

lemma consistent_frozen:
  "consistent s \<Longrightarrow> n \<in> set (team_order s) \<Longrightarrow> (p, ps) \<in> set (problems (team_at (teams s) n))
   \<Longrightarrow> frozen ps \<Longrightarrow> is_frozen s \<and> \<not> solved ps \<and> p \<in> set (problem_names s)"
  unfolding consistent_def by blast

text \<open>A frozen status of a registered team is unsolved.\<close>

lemma consistent_frozen_unsolved:
  assumes "consistent s" "n \<in> set (team_order s)" "frozen (status_of s n p)"
  shows "\<not> solved (status_of s n p)"
proof -
  from assms(3) have "(p, status_of s n p) \<in> set (problems (team_at (teams s) n))"
    unfolding status_of_def by (rule status_at_frozen_in)
  from consistent_frozen[OF assms(1,2) this assms(3)] show ?thesis by simp
qed

lemma consistent_flush:
  assumes "consistent s"
  shows "consistent (flush_scoreboard s)"
proof (rule consistentI)
  let ?s' = "flush_scoreboard s"
  have ord: "team_order ?s' = team_order s" by (rule team_order_flush)
  have pr: "\<And>n. problems (team_at (teams ?s') n) = problems (team_at (teams s) n)"
    by (simp add: flush_scoreboard_def assign_ranks_fields)
  have other: "is_frozen ?s' = is_frozen s" "problem_names ?s' = problem_names s"
    by (simp_all add: flush_scoreboard_def)
  show "distinct (team_order ?s')" "[] \<notin> set (team_order ?s')"
    using assms by (simp_all add: ord consistent_def)
  show "n \<in> set (team_order ?s')" if "n \<in> fst ` set (teams ?s')" for n
    using that consistent_keys[OF assms, of n]
    by (auto simp: flush_scoreboard_def keys_assign_ranks set_sorted_teams)
  show "map_count (teams ?s') n = 1" if "n \<in> set (team_order ?s')" for n
    using that by (simp add: flush_scoreboard_def assign_ranks_count set_sorted_teams ord)
  show "sorted_keys (problems (team_at (teams ?s') n))" if "n \<in> set (team_order ?s')" for n
    using that assms by (simp add: pr ord consistent_sorted)
  show "is_frozen ?s' \<and> \<not> solved ps \<and> p \<in> set (problem_names ?s')"
    if "n \<in> set (team_order ?s')" "(p, ps) \<in> set (problems (team_at (teams ?s') n))" "frozen ps"
    for n p ps
    using that consistent_frozen[OF assms, of n p ps] by (simp add: pr ord other)
qed

lemma frozen_total_flush: "frozen_total (flush_scoreboard s) = frozen_total s"
  by (simp add: frozen_total_def flush_scoreboard_def assign_ranks_fields)

text \<open>
  An iteration of the loop in a consistent state: the state stays consistent, exactly one
  status loses its frozen flag, and no status gains it.
\<close>

lemma consistent_step:
  assumes "consistent s" "scroll_step s = Some (s', msg)"
  shows "consistent s'"
    and "frozen_total s' + 1 = frozen_total s"
    and "is_frozen s' = is_frozen s"
    and "\<And>n p. frozen (status_of s' n p) \<Longrightarrow> frozen (status_of s n p)"
proof -
  let ?L = "lowest_team s" and ?m = "s\<lparr>teams := revealed_teams s\<rparr>"
  let ?P = "problems (team_at (teams s) ?L)"
  let ?P' = "problems (team_at (revealed_teams s) ?L)"
  let ?Q = "\<lambda>e :: string \<times> ProblemStatus. frozen (snd e)"
  from assms(2) have Lne: "?L \<noteq> []" and s': "s' = flush_scoreboard ?m"
    by (simp_all add: scroll_step_SomeD)
  note c = consistent_lowest[OF assms(1) Lne]
  note fm = revealed_frozen_mset[OF assms(1) Lne]
  have ord: "team_order s' = team_order s" by (simp add: s' team_order_flush)
  have pr: "problems (team_at (teams s') n)
              = (if n = ?L then ?P' else problems (team_at (teams s) n))" for n
    by (simp add: s' flush_scoreboard_def assign_ranks_fields revealed_team_other)
  show frz: "is_frozen s' = is_frozen s" by (simp add: s' flush_scoreboard_def)
  have names: "problem_names s' = problem_names s" by (simp add: s' flush_scoreboard_def)
  have sub: "e \<in> set ?P \<and> frozen (snd e)" if "e \<in> set ?P'" "frozen (snd e)" for e
  proof -
    from that have "e \<in># filter_mset ?Q (mset ?P')" by simp
    then have "e \<in># filter_mset ?Q (mset ?P)" unfolding fm by simp
    then show ?thesis by simp
  qed
  have sk': "sorted_keys ?P'"
    by (simp add: revealed_team_fields sorted_keys_map_set sorted_keys_find_unfreeze c(2))
  show "consistent s'"
  proof (rule consistentI)
    show "distinct (team_order s')" "[] \<notin> set (team_order s')"
      using assms(1) by (simp_all add: ord consistent_def)
    show "n \<in> set (team_order s')" if "n \<in> fst ` set (teams s')" for n
    proof -
      have "fst ` set (revealed_teams s) = insert ?L (fst ` set (teams s))"
        by (simp add: revealed_teams_def Let_def split_beta keys_map_set)
      with that have "n \<in> set (team_order s) \<or> n = ?L \<or> n \<in> fst ` set (teams s)"
        by (auto simp: s' flush_scoreboard_def keys_assign_ranks set_sorted_teams)
      with c(1) consistent_keys[OF assms(1), of n] show ?thesis by (auto simp: ord)
    qed
    show "map_count (teams s') n = 1" if "n \<in> set (team_order s')" for n
      using that by (simp add: s' flush_scoreboard_def assign_ranks_count set_sorted_teams)
    show "sorted_keys (problems (team_at (teams s') n))" if "n \<in> set (team_order s')" for n
      using that assms(1) sk' by (simp add: pr ord consistent_sorted)
    show "is_frozen s' \<and> \<not> solved ps \<and> p \<in> set (problem_names s')"
      if n: "n \<in> set (team_order s')" and e: "(p, ps) \<in> set (problems (team_at (teams s') n))"
        and f: "frozen ps" for n p ps
    proof (cases "n = ?L")
      case True
      with e have "(p, ps) \<in> set ?P'" by (simp add: pr)
      with sub[of "(p, ps)"] f have "(p, ps) \<in> set ?P" by simp
      from consistent_frozen[OF assms(1) c(1) this f] show ?thesis by (simp add: frz names)
    next
      case False
      with e have "(p, ps) \<in> set (problems (team_at (teams s) n))" by (simp add: pr)
      from consistent_frozen[OF assms(1) _ this f] n show ?thesis by (simp add: frz names ord)
    qed
  qed
  have "frozen_count ?P' + 1 = frozen_count ?P"
    unfolding frozen_count_mset fm by simp
  then have "sum_list (map (\<lambda>n. frozen_count (problems (team_at (teams s') n))) (team_order s)) + 1
        = sum_list (map (\<lambda>n. frozen_count (problems (team_at (teams s) n))) (team_order s))"
    by (intro sum_list_change_one[OF consistent_distinct[OF assms(1)] c(1)]) (simp_all add: pr)
  then show "frozen_total s' + 1 = frozen_total s"
    by (simp add: frozen_total_def ord)
  show "frozen (status_of s n p)" if f: "frozen (status_of s' n p)" for n p
  proof (cases "n = ?L")
    case True
    from f True have f': "frozen (status_at ?P' p)" by (simp add: status_of_def pr)
    then have "(p, status_at ?P' p) \<in> set ?P'" by (rule status_at_frozen_in)
    with sub[of "(p, status_at ?P' p)"] f' have "(p, status_at ?P' p) \<in> set ?P" by simp
    from status_at_sorted_in[OF c(2) this] f' True show ?thesis by (simp add: status_of_def)
  next
    case False
    with f show ?thesis by (simp add: status_of_def pr)
  qed
qed

section \<open>The scroll loop ends\<close>

lemma scroll_loop_break: "scroll_step s = None \<Longrightarrow> scroll_loop s out = Some (s, out)"
  by (subst scroll_loop.simps) simp

lemma scroll_loop_iter:
  "scroll_step s = Some (s', msg) \<Longrightarrow>
   scroll_loop s out = scroll_loop s' (out @ (case msg of None \<Rightarrow> [] | Some x \<Rightarrow> [x]))"
  by (subst scroll_loop.simps) simp

text \<open>
  From a consistent state with \<open>k\<close> frozen statuses the loop makes \<open>k\<close> iterations and reaches
  its \<open>break\<close>, in a consistent state with no frozen status.
\<close>

lemma scroll_loop_terminates:
  "consistent s \<Longrightarrow> frozen_total s = k \<Longrightarrow>
   \<exists>s2. scroll_iterate k s = Some s2 \<and> consistent s2 \<and> frozen_total s2 = 0
        \<and> is_frozen s2 = is_frozen s
        \<and> (\<forall>out. \<exists>msgs. scroll_loop s out = Some (s2, msgs))"
proof (induction k arbitrary: s)
  case 0
  from 0 have "scroll_step s = None"
    by (simp add: scroll_step_None_iff consistent_nonempty)
  with 0 show ?case by (simp add: scroll_loop_break)
next
  case (Suc k)
  from Suc.prems have "scroll_step s \<noteq> None"
    by (simp add: scroll_step_None_iff consistent_nonempty)
  then obtain s' msg where st: "scroll_step s = Some (s', msg)" by (cases "scroll_step s") auto
  note c = consistent_step[OF Suc.prems(1) st]
  from c(2) Suc.prems(2) have "frozen_total s' = k" by simp
  from Suc.IH[OF c(1) this] obtain s2 where s2: "scroll_iterate k s' = Some s2" "consistent s2"
    "frozen_total s2 = 0" "is_frozen s2 = is_frozen s'"
    "\<forall>out. \<exists>msgs. scroll_loop s' out = Some (s2, msgs)"
    by blast
  have "\<forall>out. \<exists>msgs. scroll_loop s out = Some (s2, msgs)"
  proof
    fix out
    from s2(5) obtain msgs where
      "scroll_loop s' (out @ (case msg of None \<Rightarrow> [] | Some x \<Rightarrow> [x])) = Some (s2, msgs)"
      by blast
    with scroll_loop_iter[OF st, of out] show "\<exists>msgs. scroll_loop s out = Some (s2, msgs)"
      by simp
  qed
  with s2 st c(3) show ?case by simp
qed

section \<open>Lemmas on the end of \<open>scroll\<close>\<close>

lemma reset_team_init: "reset_team Team_init = Team_init"
  by (simp add: reset_team_def Team_init_def)

lemma scroll_done_team: "team_at (teams (scroll_done s)) n = reset_team (team_at (teams s) n)"
proof -
  have "map_of (map (\<lambda>(n, t). (n, reset_team t)) (teams s)) n
          = map_option reset_team (map_of (teams s) n)"
    by (simp add: map_of_map)
  then show ?thesis
    by (cases "map_of (teams s) n") (simp_all add: scroll_done_def map_at_def reset_team_init)
qed

lemma scroll_done_count: "map_count (teams (scroll_done s)) n = map_count (teams s) n"
proof -
  have "map_of (map (\<lambda>(n, t). (n, reset_team t)) (teams s)) n
          = map_option reset_team (map_of (teams s) n)"
    by (simp add: map_of_map)
  then show ?thesis
    by (cases "map_of (teams s) n") (simp_all add: scroll_done_def map_count_def)
qed

lemma reset_team_keys: "map fst (problems (reset_team t)) = map fst (problems t)"
  by (simp add: reset_team_def split_beta)

lemma reset_team_frozen:
  "filter (\<lambda>e. frozen (snd e)) (problems (reset_team t)) = []
     \<longleftrightarrow> filter (\<lambda>e. frozen (snd e)) (problems t) = []"
  by (auto simp: reset_team_def filter_empty_conv split_beta)

lemma scroll_done_counters:
  "\<forall>(n, t)\<in>set (teams (scroll_done s)). \<forall>(p, ps)\<in>set (problems t). submissions_after_freeze ps = 0"
  by (auto simp: scroll_done_def reset_team_def)

lemma scroll_done_consistent:
  assumes "consistent s" "frozen_total s = 0"
  shows "consistent (scroll_done s)" and "frozen_total (scroll_done s) = 0"
proof -
  let ?s' = "scroll_done s"
  have ord: "team_order ?s' = team_order s" by (simp add: scroll_done_def)
  have nof: "\<not> frozen ps" if "n \<in> set (team_order s)"
    "(p, ps) \<in> set (problems (reset_team (team_at (teams s) n)))" for n p ps
  proof -
    from assms(2) that(1) have "frozen_count (problems (team_at (teams s) n)) = 0"
      by (simp add: frozen_total_def)
    then have "filter (\<lambda>e. frozen (snd e)) (problems (team_at (teams s) n)) = []"
      by (simp add: frozen_count_def)
    then have "filter (\<lambda>e. frozen (snd e)) (problems (reset_team (team_at (teams s) n))) = []"
      by (simp add: reset_team_frozen)
    with that(2) show ?thesis by (auto simp: filter_empty_conv)
  qed
  show "consistent ?s'"
  proof (rule consistentI)
    show "distinct (team_order ?s')" "[] \<notin> set (team_order ?s')"
      using assms(1) by (simp_all add: ord consistent_def)
    show "n \<in> set (team_order ?s')" if "n \<in> fst ` set (teams ?s')" for n
    proof -
      have "fst ` set (teams ?s') = fst ` set (teams s)"
        by (force simp: scroll_done_def image_iff)
      with that consistent_keys[OF assms(1), of n] show ?thesis by (simp add: ord)
    qed
    show "map_count (teams ?s') n = 1" if "n \<in> set (team_order ?s')" for n
      using that assms(1) by (simp add: scroll_done_count ord consistent_count)
    show "sorted_keys (problems (team_at (teams ?s') n))" if "n \<in> set (team_order ?s')" for n
      using that consistent_sorted[OF assms(1), of n]
      by (simp add: scroll_done_team sorted_keys_def reset_team_keys ord)
    show "is_frozen ?s' \<and> \<not> solved ps \<and> p \<in> set (problem_names ?s')"
      if "n \<in> set (team_order ?s')" "(p, ps) \<in> set (problems (team_at (teams ?s') n))" "frozen ps"
      for n p ps
      using that nof[of n p ps] by (simp add: scroll_done_team ord)
  qed
  have "\<forall>n\<in>set (team_order s). frozen_count (problems (reset_team (team_at (teams s) n))) = 0"
    using nof by (auto simp: frozen_count_0_iff)
  then show "frozen_total ?s' = 0"
    by (simp add: frozen_total_def scroll_done_team ord)
qed

text \<open>\<open>scroll\<close> on a consistent, frozen state.\<close>

lemma scroll_result:
  assumes "consistent s" "is_frozen s"
  shows "\<exists>s2 msgs.
            scroll_iterate (frozen_total s) (flush_scoreboard s) = Some s2
            \<and> scroll s = Some (Inr (print_scoreboard (flush_scoreboard s), msgs,
                                     print_scoreboard s2, scroll_done s2))
            \<and> frozen_total (scroll_done s2) = 0
            \<and> consistent (scroll_done s2)"
proof -
  let ?s1 = "flush_scoreboard s"
  have c1: "consistent ?s1" using assms(1) by (rule consistent_flush)
  have k: "frozen_total ?s1 = frozen_total s" by (rule frozen_total_flush)
  from scroll_loop_terminates[OF c1 k] obtain s2 where
    s2: "scroll_iterate (frozen_total s) ?s1 = Some s2" "consistent s2" "frozen_total s2 = 0"
      "\<forall>out. \<exists>msgs. scroll_loop ?s1 out = Some (s2, msgs)"
    by blast
  from s2(4) obtain msgs where loop: "scroll_loop ?s1 [] = Some (s2, msgs)" by blast
  from assms(2) loop
  have sc: "scroll s = Some (Inr (print_scoreboard ?s1, msgs, print_scoreboard s2, scroll_done s2))"
    by (simp add: scroll_def Let_def)
  note d = scroll_done_consistent[OF s2(2,3)]
  from s2(1) sc d show ?thesis by blast
qed

section \<open>Validated commands lead to consistent states\<close>

lemma consistent_init: "consistent system_init"
  by (simp add: consistent_def system_init_def)

lemma consistent_add_team:
  assumes "consistent s" "n \<noteq> []" "add_team n s = Inr s'"
  shows "consistent s'"
proof -
  let ?t = "Team_init\<lparr>name := n\<rparr>"
  from assms(3) have cnt: "map_count (teams s) n = 0"
    and s': "s' = s\<lparr>teams := map_set n ?t (teams s), team_order := team_order s @ [n]\<rparr>"
    by (auto simp: add_team_def split: if_splits)
  from cnt consistent_count[OF assms(1), of n] have new: "n \<notin> set (team_order s)" by auto
  have at: "team_at (teams s') m = (if m = n then ?t else team_at (teams s) m)" for m
    by (simp add: s' map_at_map_set)
  have empty: "problems ?t = []" by (simp add: Team_init_def)
  show ?thesis
  proof (rule consistentI)
    show "distinct (team_order s')" "[] \<notin> set (team_order s')"
      using assms(1,2) new by (auto simp: s' consistent_def)
    show "m \<in> set (team_order s')" if "m \<in> fst ` set (teams s')" for m
      using that consistent_keys[OF assms(1), of m] by (auto simp: s' keys_map_set)
    show "map_count (teams s') m = 1" if "m \<in> set (team_order s')" for m
      using that consistent_count[OF assms(1), of m] by (auto simp: s' map_count_map_set)
    show "sorted_keys (problems (team_at (teams s') m))" if "m \<in> set (team_order s')" for m
    proof (cases "m = n")
      case True
      then show ?thesis by (simp add: at empty sorted_keys_def)
    next
      case False
      with that have "m \<in> set (team_order s)" by (simp add: s')
      from consistent_sorted[OF assms(1) this] False show ?thesis by (simp add: at)
    qed
    show "is_frozen s' \<and> \<not> solved ps \<and> p \<in> set (problem_names s')"
      if "m \<in> set (team_order s')" "(p, ps) \<in> set (problems (team_at (teams s') m))" "frozen ps"
      for m p ps
    proof (cases "m = n")
      case True
      with that(2) show ?thesis by (simp add: at empty)
    next
      case False
      from that(1) False have 1: "m \<in> set (team_order s)" by (simp add: s')
      from that(2) False have 2: "(p, ps) \<in> set (problems (team_at (teams s) m))"
        by (simp add: at)
      from consistent_frozen[OF assms(1) 1 2 that(3)] show ?thesis by (simp add: s')
    qed
  qed
qed

lemma consistent_start:
  assumes "consistent s" "start_competition d k s = Inr s'"
  shows "consistent s'"
proof -
  from assms(2) have ord: "team_order s' = team_order s" and frz: "is_frozen s' = is_frozen s"
    and names: "set (problem_names s) \<subseteq> set (problem_names s')"
    and T: "teams s' = assign_ranks 0 (sort (team_order s)) (teams s)"
    by (auto simp: start_competition_def split: if_splits)
  have pr: "\<And>n. problems (team_at (teams s') n) = problems (team_at (teams s) n)"
    by (simp add: T assign_ranks_fields)
  show ?thesis
  proof (rule consistentI)
    show "distinct (team_order s')" "[] \<notin> set (team_order s')"
      using assms(1) by (simp_all add: ord consistent_def)
    show "n \<in> set (team_order s')" if "n \<in> fst ` set (teams s')" for n
      using that consistent_keys[OF assms(1), of n] by (auto simp: T keys_assign_ranks ord)
    show "map_count (teams s') n = 1" if "n \<in> set (team_order s')" for n
      using that by (simp add: T assign_ranks_count ord)
    show "sorted_keys (problems (team_at (teams s') n))" if "n \<in> set (team_order s')" for n
      using that assms(1) by (simp add: pr ord consistent_sorted)
    show "is_frozen s' \<and> \<not> solved ps \<and> p \<in> set (problem_names s')"
      if "n \<in> set (team_order s')" "(p, ps) \<in> set (problems (team_at (teams s') n))" "frozen ps"
      for n p ps
      using that consistent_frozen[OF assms(1), of n p ps] names by (auto simp: pr ord frz)
  qed
qed

lemma set_map_set_subset: "set (map_set k v m) \<subseteq> insert (k, v) (set m)"
  by (induction m) (auto split: if_splits)

lemma submit_status_frozen:
  "frozen (submit_status frz st tm ps) \<Longrightarrow> (frozen ps \<Longrightarrow> frz \<and> \<not> solved ps) \<Longrightarrow>
   frz \<and> \<not> solved (submit_status frz st tm ps)"
  by (auto simp: submit_status_def split: if_splits)

lemma consistent_submit:
  assumes "consistent s" "p \<in> set (problem_names s)" "n \<in> set (team_order s)"
  shows "consistent (submit p n st tm s)"
proof -
  let ?s' = "submit p n st tm s"
  let ?P = "problems (team_at (teams s) n)"
  let ?v = "submit_status (is_frozen s) st tm (status_at ?P p)"
  have ord: "team_order ?s' = team_order s" and frz: "is_frozen ?s' = is_frozen s"
    and names: "problem_names ?s' = problem_names s"
    by (simp_all add: submit_def Let_def)
  have cnt: "map_count (teams ?s') m = (if m = n then 1 else map_count (teams s) m)" for m
    by (simp add: submit_def Let_def map_count_map_set)
  have pr: "problems (team_at (teams ?s') m)
              = (if m = n then map_set p ?v ?P else problems (team_at (teams s) m))" for m
    by (simp add: submit_def Let_def map_at_map_set)
  show ?thesis
  proof (rule consistentI)
    show "distinct (team_order ?s')" "[] \<notin> set (team_order ?s')"
      using assms(1) by (simp_all add: ord consistent_def)
    show "m \<in> set (team_order ?s')" if "m \<in> fst ` set (teams ?s')" for m
      using that consistent_keys[OF assms(1), of m] assms(3)
      by (auto simp: submit_def Let_def keys_map_set)
    show "map_count (teams ?s') m = 1" if "m \<in> set (team_order ?s')" for m
      using that consistent_count[OF assms(1), of m] by (simp add: cnt ord)
    show "sorted_keys (problems (team_at (teams ?s') m))" if "m \<in> set (team_order ?s')" for m
      using that consistent_sorted[OF assms(1), of m]
      by (auto simp: pr ord sorted_keys_map_set)
    show "is_frozen ?s' \<and> \<not> solved ps \<and> q \<in> set (problem_names ?s')"
      if m: "m \<in> set (team_order ?s')" and e: "(q, ps) \<in> set (problems (team_at (teams ?s') m))"
        and f: "frozen ps" for m q ps
    proof (cases "m = n \<and> (q, ps) = (p, ?v)")
      case True
      from m True have n: "n \<in> set (team_order s)" by (simp add: ord)
      have old: "is_frozen s \<and> \<not> solved (status_at ?P p)" if "frozen (status_at ?P p)"
      proof -
        from that have "(p, status_at ?P p) \<in> set ?P" by (rule status_at_frozen_in)
        from consistent_frozen[OF assms(1) n this that] show ?thesis by simp
      qed
      from True f have "frozen ?v" by simp
      from submit_status_frozen[OF this old] True assms(2) show ?thesis
        by (auto simp: frz names)
    next
      case False
      have "(q, ps) \<in> set (problems (team_at (teams s) m))"
      proof (cases "m = n")
        case True
        with e set_map_set_subset[of p ?v ?P] have "(q, ps) \<in> insert (p, ?v) (set ?P)"
          by (auto simp: pr)
        with False True show ?thesis by auto
      next
        case False
        with e show ?thesis by (simp add: pr)
      qed
      from consistent_frozen[OF assms(1) _ this f] m show ?thesis by (simp add: ord frz names)
    qed
  qed
qed

lemma consistent_freeze:
  assumes "consistent s" "freeze s = Inr s'"
  shows "consistent s'"
proof -
  from assms(2) have s': "s' = s\<lparr>is_frozen := True, freeze_time := 0\<rparr>"
    by (auto simp: freeze_def split: if_splits)
  show ?thesis
  proof (rule consistentI)
    show "distinct (team_order s')" "[] \<notin> set (team_order s')"
      using assms(1) by (simp_all add: s' consistent_def)
    show "n \<in> set (team_order s')" if "n \<in> fst ` set (teams s')" for n
      using that consistent_keys[OF assms(1), of n] by (simp add: s')
    show "map_count (teams s') n = 1" if "n \<in> set (team_order s')" for n
      using that assms(1) by (simp add: s' consistent_count)
    show "sorted_keys (problems (team_at (teams s') n))" if "n \<in> set (team_order s')" for n
      using that assms(1) by (simp add: s' consistent_sorted)
    show "is_frozen s' \<and> \<not> solved ps \<and> p \<in> set (problem_names s')"
      if "n \<in> set (team_order s')" "(p, ps) \<in> set (problems (team_at (teams s') n))" "frozen ps"
      for n p ps
      using that consistent_frozen[OF assms(1), of n p ps] by (simp add: s')
  qed
qed

lemma consistent_scroll:
  assumes "consistent s" "scroll s = Some (Inr (before, msgs, after, s'))"
  shows "consistent s'"
proof (cases "is_frozen s")
  case False
  with assms(2) show ?thesis by (simp add: scroll_def)
next
  case True
  from scroll_result[OF assms(1) True] assms(2) show ?thesis by auto
qed

lemma consistent_apply_event:
  assumes "consistent s" "valid_event s e" "apply_event e s = Some s'"
  shows "consistent s'"
proof (cases e)
  case (AddTeam n)
  with assms show ?thesis
    by (cases "add_team n s") (auto intro: consistent_add_team)
next
  case (Start d k)
  with assms show ?thesis
    by (cases "start_competition d k s") (auto intro: consistent_start)
next
  case (Submit p n st tm)
  with assms show ?thesis by (auto intro: consistent_submit)
next
  case Flush
  with assms show ?thesis by (auto intro: consistent_flush)
next
  case Freeze
  with assms show ?thesis
    by (cases "freeze s") (auto intro: consistent_freeze)
next
  case Scroll
  show ?thesis
  proof (cases "scroll s")
    case None
    with assms(3) Scroll show ?thesis by simp
  next
    case (Some r)
    show ?thesis
    proof (cases r)
      case (Inl err)
      with Some assms(1,3) Scroll show ?thesis by simp
    next
      case (Inr x)
      obtain before msgs after s2 where x: "x = (before, msgs, after, s2)" by (cases x) auto
      with Inr Some assms(3) Scroll have "s' = s2" by simp
      with consistent_scroll[OF assms(1)] Some Inr x show ?thesis by simp
    qed
  qed
qed

lemma run_consistent_from: "consistent s \<Longrightarrow> run es s = Some s' \<Longrightarrow> consistent s'"
proof (induction es arbitrary: s)
  case Nil
  then show ?case by simp
next
  case (Cons e es)
  from Cons.prems(2) have v: "valid_event s e" by (simp split: if_splits)
  with Cons.prems(2) obtain s1 where s1: "apply_event e s = Some s1" "run es s1 = Some s'"
    by (cases "apply_event e s") simp_all
  from consistent_apply_event[OF Cons.prems(1) v s1(1)] have "consistent s1" .
  from Cons.IH[OF this s1(2)] show ?case .
qed

text \<open>Every state that a sequence of validated commands leads to is consistent.\<close>

lemma run_consistent: "run es system_init = Some s \<Longrightarrow> consistent s"
  using consistent_init by (rule run_consistent_from)

lemma reachable_consistent: "reachable s \<Longrightarrow> consistent s"
  unfolding reachable_def using run_consistent by blast

lemma reachable_overtake: "reachable overtake_state"
  unfolding reachable_def using run_overtake by blast

lemma reachable_replay: "reachable replay_state"
  unfolding reachable_def using run_replay by blast

lemma reachable_refreeze: "reachable refreeze_state"
  unfolding reachable_def using run_refreeze by blast

lemma reachable_tiebreak: "reachable tiebreak_state"
  unfolding reachable_def using run_tiebreak by blast

lemma consistent_refreeze: "consistent refreeze_state"
  using reachable_consistent[OF reachable_refreeze] .

section \<open>A submission outside the validated input\<close>

text \<open>
  The consistency that the theorems on \<open>scroll\<close> assume is what validated commands give, and
  it is needed: after a submission, while frozen, to a problem that is not of the
  configured set, the search of lines 287 to 293 finds no problem, every iteration reveals
  the entry of the empty name and leaves the frozen one, and the loop never reaches its
  \<open>break\<close>.
\<close>

lemma stray_reached:
  "\<exists>s. run [AddTeam ''a'', Start 100 1, Freeze] system_init = Some s
       \<and> \<not> valid_event s (Submit ''B'' ''a'' ''Accepted'' 5)
       \<and> apply_event (Submit ''B'' ''a'' ''Accepted'' 5) s = Some stray_state"
  by (rule exI[of _ "stray_state\<lparr>teams :=
        [(''a'', \<lparr>name = ''a'', problems = [], submissions = [], ranking = 1\<rparr>)]\<rparr>"]) code_simp

lemma stray_flush: "flush_scoreboard stray_state = stray_state"
  by code_simp

lemma stray_step: "scroll_step stray_state = Some (stray_loop_state, None)"
  by code_simp

lemma stray_loop_step: "scroll_step stray_loop_state = Some (stray_loop_state, None)"
  by code_simp

lemma stray_loop_diverges: "scroll_loop stray_loop_state out = None"
proof (rule ccontr)
  assume "scroll_loop stray_loop_state out \<noteq> None"
  then obtain y where y: "scroll_loop stray_loop_state out = Some y" by blast
  have "s \<noteq> stray_loop_state" if "scroll_loop s out = Some y" for s out y
  proof (rule scroll_loop.raw_induct[where P = "\<lambda>s out y. s \<noteq> stray_loop_state", OF _ that])
    fix f :: "system \<Rightarrow> notification list \<Rightarrow> (system \<times> notification list) option"
    fix s out y
    assume IH: "\<And>s out y. f s out = Some y \<Longrightarrow> s \<noteq> stray_loop_state"
      and st: "(case scroll_step s of
                  None \<Rightarrow> Some (s, out)
                | Some (s', n) \<Rightarrow> f s' (out @ (case n of None \<Rightarrow> [] | Some x \<Rightarrow> [x])))
               = Some y"
    show "s \<noteq> stray_loop_state"
    proof
      assume "s = stray_loop_state"
      with st stray_loop_step have "f stray_loop_state out = Some y" by simp
      from IH[OF this] show False by simp
    qed
  qed
  from this[OF y] show False by simp
qed

lemma stray_scroll_diverges: "scroll stray_state = None"
proof -
  have "scroll_loop stray_state [] = scroll_loop stray_loop_state []"
    using scroll_loop_iter[OF stray_step, of "[]"] by simp
  then have "scroll_loop stray_state [] = None" by (simp add: stray_loop_diverges)
  moreover have "is_frozen stray_state" by code_simp
  ultimately show ?thesis by (simp add: scroll_def Let_def stray_flush)
qed

section \<open>The reveal in one iteration\<close>

lemma scroll_step_reveal:
  assumes "scroll_step s = Some (s', msg)"
    and "\<not> solved (status_of s (lowest_team s) (unfreeze_problem s))"
  shows "(\<forall>pre acc post.
            after_freeze_subs (unfreeze_problem s) (history_of s (lowest_team s)) = pre @ acc # post
            \<and> status acc = ''Accepted'' \<and> (\<forall>x\<in>set pre. status x \<noteq> ''Accepted'') \<longrightarrow>
            status_of s' (lowest_team s) (unfreeze_problem s)
              = (status_of s (lowest_team s) (unfreeze_problem s))
                  \<lparr>frozen := False, solved := True, solve_time := time acc,
                   wrong_attempts_before_first_success :=
                     wrong_attempts_before_freeze
                       (status_of s (lowest_team s) (unfreeze_problem s))
                     + int (length pre)\<rparr>)
       \<and> ((\<forall>x\<in>set (after_freeze_subs (unfreeze_problem s) (history_of s (lowest_team s))).
              status x \<noteq> ''Accepted'') \<longrightarrow>
            status_of s' (lowest_team s) (unfreeze_problem s)
              = (status_of s (lowest_team s) (unfreeze_problem s))
                  \<lparr>frozen := False,
                   wrong_attempts_before_freeze :=
                     wrong_attempts_before_freeze
                       (status_of s (lowest_team s) (unfreeze_problem s))
                     + int (length (after_freeze_subs (unfreeze_problem s)
                                      (history_of s (lowest_team s))))\<rparr>)
       \<and> history_of s' (lowest_team s) = history_of s (lowest_team s)"
proof -
  from assms(1) have s': "s' = flush_scoreboard (s\<lparr>teams := revealed_teams s\<rparr>)"
    by (simp add: scroll_step_SomeD)
  have hist: "history_of s' (lowest_team s) = history_of s (lowest_team s)"
    unfolding s' history_of_flush by (simp add: history_of_def revealed_team_fields)
  note st = scroll_step_status[OF assms(1)]
  from st reveal_accept[OF assms(2)] reveal_no_accept[OF assms(2)] hist
  show ?thesis by simp
qed

lemma scroll_step_spec_reveal:
  assumes "consistent s" "scroll_step s = Some (s', msg)"
  shows "status_of s' (lowest_team s) (unfreeze_problem s)
           = spec_reveal (status_of s (lowest_team s) (unfreeze_problem s))
               (after_freeze_subs (unfreeze_problem s) (history_of s (lowest_team s)))"
proof -
  from assms(2) have "lowest_team s \<noteq> []" by (simp add: scroll_step_SomeD)
  note c = consistent_lowest[OF assms(1) this]
  from scroll_step_status[OF assms(2)] reveal_spec[OF c(5)] show ?thesis by simp
qed

section \<open>The comparison of teams (claim C1)\<close>

text \<open>
  Claim C1. Take a registry \<open>T\<close>, a visibility mode and two teams \<open>a\<close> and \<open>b\<close>. The problems
  that count for a team are those it has solved and, unless the mode includes frozen
  results, whose status is not frozen. When no operation of \<open>calculate_team_stats\<close> leaves the
  range of \<open>int\<close> for \<open>a\<close> and \<open>b\<close>, the statistics of each are the number of the problems that
  count, the sum over them of the solve time and of 20 for each wrong attempt before the
  first success, and their solve times sorted descending; and \<open>compare_teams\<close> puts \<open>a\<close> before
  \<open>b\<close> exactly when \<open>a\<close> has solved more; or as many, with less penalty; or with the same
  penalty, and at the first index below both lengths where the sorted solve times differ, the
  one of \<open>a\<close> is smaller; or no such index differs and the name of \<open>a\<close> is smaller. The
  relation is irreflexive and transitive, and of two distinct names it puts exactly one
  before the other: a strict total order. A ranking pass gives \<open>a\<close> a smaller rank than \<open>b\<close>
  exactly when \<open>compare_teams\<close> puts \<open>a\<close> before \<open>b\<close> in the mode that excludes frozen results.
\<close>

theorem compare_teams_order:
  "(let Ca = filter (\<lambda>ps. solved ps \<and> (\<not> frozen ps \<or> inc)) (map snd (problems (team_at T a)));
        Cb = filter (\<lambda>ps. solved ps \<and> (\<not> frozen ps \<or> inc)) (map snd (problems (team_at T b)));
        na = int (length Ca); nb = int (length Cb);
        pa = sum_list (map (\<lambda>ps. solve_time ps + 20 * wrong_attempts_before_first_success ps) Ca);
        pb = sum_list (map (\<lambda>ps. solve_time ps + 20 * wrong_attempts_before_first_success ps) Cb);
        ta = rev (sort (map solve_time Ca)); tb = rev (sort (map solve_time Cb))
    in stats_in_range (team_at T a) inc \<and> stats_in_range (team_at T b) inc \<longrightarrow>
       calculate_team_stats (team_at T a) inc
         = \<lparr>solved_count = na, penalty_time = pa, solve_times = ta\<rparr>
       \<and> calculate_team_stats (team_at T b) inc
           = \<lparr>solved_count = nb, penalty_time = pb, solve_times = tb\<rparr>
       \<and> (compare_teams T a b inc \<longleftrightarrow>
            na > nb
            \<or> (na = nb
               \<and> (pa < pb
                  \<or> (pa = pb
                     \<and> ((\<exists>i < min (length ta) (length tb).
                            (\<forall>j<i. ta ! j = tb ! j) \<and> ta ! i < tb ! i)
                        \<or> ((\<forall>i < min (length ta) (length tb). ta ! i = tb ! i)
                           \<and> a < b)))))))
   \<and> \<not> compare_teams T a a inc
   \<and> (compare_teams T a b inc \<and> compare_teams T b c inc \<longrightarrow> compare_teams T a c inc)
   \<and> (a \<noteq> b \<longrightarrow> (compare_teams T a b inc \<longleftrightarrow> \<not> compare_teams T b a inc))
   \<and> (distinct (team_order s) \<and> a \<in> set (team_order s) \<and> b \<in> set (team_order s) \<longrightarrow>
        (rank_of (flush_scoreboard s) a < rank_of (flush_scoreboard s) b
           \<longleftrightarrow> compare_teams (teams s) a b False))"
proof -
  let ?Ca = "filter (\<lambda>ps. solved ps \<and> (\<not> frozen ps \<or> inc)) (map snd (problems (team_at T a)))"
  let ?Cb = "filter (\<lambda>ps. solved ps \<and> (\<not> frozen ps \<or> inc)) (map snd (problems (team_at T b)))"
  let ?na = "int (length ?Ca)" and ?nb = "int (length ?Cb)"
  let ?pa = "sum_list (map (\<lambda>ps. solve_time ps + 20 * wrong_attempts_before_first_success ps) ?Ca)"
  let ?pb = "sum_list (map (\<lambda>ps. solve_time ps + 20 * wrong_attempts_before_first_success ps) ?Cb)"
  let ?ta = "rev (sort (map solve_time ?Ca))" and ?tb = "rev (sort (map solve_time ?Cb))"
  let ?C = "\<lambda>m. filter (\<lambda>ps. solved ps \<and> (\<not> frozen ps \<or> inc)) (map snd m)"
  have loop: "stats_loop inc m st =
      \<lparr>solved_count = solved_count st + int (length (?C m)),
       penalty_time = penalty_time st
         + sum_list (map (\<lambda>ps. solve_time ps + 20 * wrong_attempts_before_first_success ps)
                       (?C m)),
       solve_times = solve_times st @ map solve_time (?C m)\<rparr>" for m st
    by (induction inc m st rule: stats_loop.induct) (simp_all add: counted_def)
  have stats: "calculate_team_stats t inc =
      \<lparr>solved_count = int (length (?C (problems t))),
       penalty_time =
         sum_list (map (\<lambda>ps. solve_time ps + 20 * wrong_attempts_before_first_success ps)
                     (?C (problems t))),
       solve_times = rev (sort (map solve_time (?C (problems t))))\<rparr>" for t
    by (simp add: calculate_team_stats_def Let_def loop)
  have sa: "calculate_team_stats (team_at T a) inc
      = \<lparr>solved_count = ?na, penalty_time = ?pa, solve_times = ?ta\<rparr>"
    by (rule stats)
  have sb: "calculate_team_stats (team_at T b) inc
      = \<lparr>solved_count = ?nb, penalty_time = ?pb, solve_times = ?tb\<rparr>"
    by (rule stats)
  have fd: "first_diff ?ta ?tb = Some True
      \<longleftrightarrow> (\<exists>i < min (length ?ta) (length ?tb). (\<forall>j<i. ?ta ! j = ?tb ! j) \<and> ?ta ! i < ?tb ! i)"
    unfolding first_diff_Some_iff by auto
  have cmp: "compare_teams T a b inc \<longleftrightarrow>
      ?na > ?nb
      \<or> (?na = ?nb
         \<and> (?pa < ?pb
            \<or> (?pa = ?pb
               \<and> (first_diff ?ta ?tb = Some True \<or> (first_diff ?ta ?tb = None \<and> a < b)))))"
    unfolding compare_teams_def Let_def sa sb by (auto split: option.splits)
  have chain: "compare_teams T a b inc \<longleftrightarrow>
            ?na > ?nb
            \<or> (?na = ?nb
               \<and> (?pa < ?pb
                  \<or> (?pa = ?pb
                     \<and> ((\<exists>i < min (length ?ta) (length ?tb).
                            (\<forall>j<i. ?ta ! j = ?tb ! j) \<and> ?ta ! i < ?tb ! i)
                        \<or> ((\<forall>i < min (length ?ta) (length ?tb). ?ta ! i = ?tb ! i)
                           \<and> a < b)))))"
    unfolding cmp fd first_diff_None_nth ..
  have tot: "a \<noteq> b \<longrightarrow> (compare_teams T a b inc \<longleftrightarrow> \<not> compare_teams T b a inc)"
    using compare_teams_total[of a b T inc] compare_teams_asym[of T a b inc] by blast
  have tr: "compare_teams T a b inc \<and> compare_teams T b c inc \<longrightarrow> compare_teams T a c inc"
    using compare_teams_trans by blast
  have rk: "distinct (team_order s) \<and> a \<in> set (team_order s) \<and> b \<in> set (team_order s) \<longrightarrow>
        (rank_of (flush_scoreboard s) a < rank_of (flush_scoreboard s) b
           \<longleftrightarrow> compare_teams (teams s) a b False)"
    using rank_of_flush_less by blast
  from sa sb chain tot tr rk compare_teams_irrefl[of T a inc]
  show ?thesis unfolding Let_def by blast
qed

text \<open>
  The fifth contest. \<open>d\<close> is before \<open>c\<close> by the number of solved problems, \<open>c\<close> before \<open>f\<close> by
  the penalty, \<open>f\<close> before \<open>b\<close> by the first of the sorted solve times, 45 against 50, and \<open>b\<close>
  before \<open>a\<close> by the second, 10 against 30, each against the order of the names; \<open>a\<close> and
  \<open>e\<close> tie on every statistic and the names decide. The listing shows the ranks, the numbers
  of solved problems and the penalties.
\<close>

theorem compare_teams_order_witness:
  "run tiebreak_events system_init = Some tiebreak_state
   \<and> stats_in_range (team_at (teams tiebreak_state) ''a'') False
   \<and> stats_in_range (team_at (teams tiebreak_state) ''b'') False
   \<and> stats_in_range (team_at (teams tiebreak_state) ''c'') False
   \<and> stats_in_range (team_at (teams tiebreak_state) ''d'') False
   \<and> stats_in_range (team_at (teams tiebreak_state) ''e'') False
   \<and> stats_in_range (team_at (teams tiebreak_state) ''f'') False
   \<and> calculate_team_stats (team_at (teams tiebreak_state) ''a'') False
       = \<lparr>solved_count = 2, penalty_time = 80, solve_times = [50, 30]\<rparr>
   \<and> calculate_team_stats (team_at (teams tiebreak_state) ''b'') False
       = \<lparr>solved_count = 2, penalty_time = 80, solve_times = [50, 10]\<rparr>
   \<and> calculate_team_stats (team_at (teams tiebreak_state) ''c'') False
       = \<lparr>solved_count = 2, penalty_time = 45, solve_times = [40, 5]\<rparr>
   \<and> calculate_team_stats (team_at (teams tiebreak_state) ''d'') False
       = \<lparr>solved_count = 3, penalty_time = 210, solve_times = [80, 70, 60]\<rparr>
   \<and> calculate_team_stats (team_at (teams tiebreak_state) ''e'') False
       = \<lparr>solved_count = 2, penalty_time = 80, solve_times = [50, 30]\<rparr>
   \<and> calculate_team_stats (team_at (teams tiebreak_state) ''f'') False
       = \<lparr>solved_count = 2, penalty_time = 80, solve_times = [45, 35]\<rparr>
   \<and> compare_teams (teams tiebreak_state) ''d'' ''c'' False
   \<and> compare_teams (teams tiebreak_state) ''c'' ''f'' False
   \<and> compare_teams (teams tiebreak_state) ''f'' ''b'' False
   \<and> compare_teams (teams tiebreak_state) ''b'' ''a'' False
   \<and> compare_teams (teams tiebreak_state) ''a'' ''e'' False
   \<and> \<not> compare_teams (teams tiebreak_state) ''a'' ''b'' False
   \<and> compare_teams (teams tiebreak_state) ''d'' ''f'' False
   \<and> rank_of (flush_scoreboard tiebreak_state) ''b'' < rank_of (flush_scoreboard tiebreak_state) ''a''
   \<and> map (rank_of (flush_scoreboard tiebreak_state)) [''d'', ''c'', ''f'', ''b'', ''a'', ''e'']
       = [1, 2, 3, 4, 5, 6]
   \<and> print_scoreboard tiebreak_state
       = [''d 1 3 210 + + +'', ''c 2 2 45 + + .'', ''f 3 2 80 + + .'',
          ''b 4 2 80 +1 + .'', ''a 5 2 80 + + .'', ''e 6 2 80 + + .'']"
proof -
  let ?T = "teams tiebreak_state"
  let ?A = "\<lambda>t. \<lparr>solved = True, solve_time = t, wrong_attempts_before_first_success = 0,
                  wrong_attempts_before_freeze = 0, submissions_after_freeze = 0,
                  frozen = False\<rparr>"
  let ?W = "\<lparr>solved = True, solve_time = 10, wrong_attempts_before_first_success = 1,
             wrong_attempts_before_freeze = 1, submissions_after_freeze = 0, frozen = False\<rparr>"
  have run: "run tiebreak_events system_init = Some tiebreak_state" by code_simp
  have ra: "stats_in_range (team_at ?T ''a'') False"
    and rb: "stats_in_range (team_at ?T ''b'') False"
    and rc: "stats_in_range (team_at ?T ''c'') False"
    and rd: "stats_in_range (team_at ?T ''d'') False"
    and re: "stats_in_range (team_at ?T ''e'') False"
    and rf: "stats_in_range (team_at ?T ''f'') False"
    by code_simp+
  have Ca: "filter (\<lambda>ps. solved ps \<and> (\<not> frozen ps \<or> False))
              (map snd (problems (team_at ?T ''a''))) = [?A 30, ?A 50]"
    and Cb: "filter (\<lambda>ps. solved ps \<and> (\<not> frozen ps \<or> False))
              (map snd (problems (team_at ?T ''b''))) = [?W, ?A 50]"
    and Cc: "filter (\<lambda>ps. solved ps \<and> (\<not> frozen ps \<or> False))
              (map snd (problems (team_at ?T ''c''))) = [?A 5, ?A 40]"
    and Cd: "filter (\<lambda>ps. solved ps \<and> (\<not> frozen ps \<or> False))
              (map snd (problems (team_at ?T ''d''))) = [?A 60, ?A 70, ?A 80]"
    and Ce: "filter (\<lambda>ps. solved ps \<and> (\<not> frozen ps \<or> False))
              (map snd (problems (team_at ?T ''e''))) = [?A 30, ?A 50]"
    and Cf: "filter (\<lambda>ps. solved ps \<and> (\<not> frozen ps \<or> False))
              (map snd (problems (team_at ?T ''f''))) = [?A 35, ?A 45]"
    by code_simp+
  note dc = compare_teams_order[of False ?T "''d''" "''c''" "''f''" tiebreak_state,
      unfolded Let_def Cc Cd]
  note cf = compare_teams_order[of False ?T "''c''" "''f''" "''b''" tiebreak_state,
      unfolded Let_def Cc Cf]
  note fb = compare_teams_order[of False ?T "''f''" "''b''" "''a''" tiebreak_state,
      unfolded Let_def Cf Cb]
  note ba = compare_teams_order[of False ?T "''b''" "''a''" "''e''" tiebreak_state,
      unfolded Let_def Ca Cb]
  note ae = compare_teams_order[of False ?T "''a''" "''e''" "''e''" tiebreak_state,
      unfolded Let_def Ca Ce]
  note df = compare_teams_order[of False ?T "''d''" "''c''" "''f''" tiebreak_state]
  from dc rc rd have sd: "calculate_team_stats (team_at ?T ''d'') False
       = \<lparr>solved_count = 3, penalty_time = 210, solve_times = [80, 70, 60]\<rparr>"
    and sc: "calculate_team_stats (team_at ?T ''c'') False
       = \<lparr>solved_count = 2, penalty_time = 45, solve_times = [40, 5]\<rparr>"
    by simp_all
  from fb rf rb have sf: "calculate_team_stats (team_at ?T ''f'') False
       = \<lparr>solved_count = 2, penalty_time = 80, solve_times = [45, 35]\<rparr>"
    and sb: "calculate_team_stats (team_at ?T ''b'') False
       = \<lparr>solved_count = 2, penalty_time = 80, solve_times = [50, 10]\<rparr>"
    by simp_all
  from ae ra re have sa: "calculate_team_stats (team_at ?T ''a'') False
       = \<lparr>solved_count = 2, penalty_time = 80, solve_times = [50, 30]\<rparr>"
    and se: "calculate_team_stats (team_at ?T ''e'') False
       = \<lparr>solved_count = 2, penalty_time = 80, solve_times = [50, 30]\<rparr>"
    by simp_all
  from dc rc rd have c1: "compare_teams ?T ''d'' ''c'' False" by simp
  from cf rc rf have c2: "compare_teams ?T ''c'' ''f'' False" by simp
  have ex0: "\<exists>i < min (length [45, 35::int]) (length [50, 10::int]).
              (\<forall>j<i. [45, 35::int] ! j = [50, 10] ! j) \<and> [45, 35::int] ! i < [50, 10] ! i"
    by (rule exI[of _ 0]) simp
  from fb rf rb ex0 have c3: "compare_teams ?T ''f'' ''b'' False" by simp
  have ex1: "\<exists>i < min (length [50, 10::int]) (length [50, 30::int]).
              (\<forall>j<i. [50, 10::int] ! j = [50, 30] ! j) \<and> [50, 10::int] ! i < [50, 30] ! i"
    by (rule exI[of _ 1]) (simp add: less_Suc_eq)
  from ba ra rb ex1 have c4: "compare_teams ?T ''b'' ''a'' False" by simp
  from ae ra re have c5: "compare_teams ?T ''a'' ''e'' False" by simp
  have ne: "''b'' \<noteq> ''a''" by simp
  from ba c4 ne have c6: "\<not> compare_teams ?T ''a'' ''b'' False" by blast
  from df c1 c2 have c7: "compare_teams ?T ''d'' ''f'' False" by blast
  have d: "distinct (team_order tiebreak_state)" and ia: "''a'' \<in> set (team_order tiebreak_state)"
    and ib: "''b'' \<in> set (team_order tiebreak_state)" by code_simp+
  from ba c4 d ia ib have rk: "rank_of (flush_scoreboard tiebreak_state) ''b''
      < rank_of (flush_scoreboard tiebreak_state) ''a''" by blast
  have rks: "map (rank_of (flush_scoreboard tiebreak_state))
               [''d'', ''c'', ''f'', ''b'', ''a'', ''e''] = [1, 2, 3, 4, 5, 6]"
    by code_simp
  have board: "print_scoreboard tiebreak_state
      = [''d 1 3 210 + + +'', ''c 2 2 45 + + .'', ''f 3 2 80 + + .'',
         ''b 4 2 80 +1 + .'', ''a 5 2 80 + + .'', ''e 6 2 80 + + .'']"
    by code_simp
  from run ra rb rc rd re rf sa sb sc sd se sf c1 c2 c3 c4 c5 c6 c7 rk rks board
  show ?thesis by blast
qed


section \<open>The reveal of a frozen problem (claim C2)\<close>

text \<open>
  Claim C2. The reveal of a frozen status replays the frozen window of its team and
  problem, the submissions made during the present freeze (\<open>spec_frozen_window\<close>,
  \<open>spec_reveal\<close>). The source replays every submission to the problem whose flag
  \<open>before_freeze\<close> is false (lemma \<open>scroll_step_spec_reveal\<close>), and no command resets that
  flag: after a second \<open>FREEZE\<close> the loop of lines 303 to 315 visits the submissions of the
  earlier freeze again, which the earlier scroll has counted already.

  In the fourth contest, reached by validated commands and consistent (lemma
  \<open>consistent_refreeze\<close>), the second scroll reveals \<open>A\<close> of \<open>b\<close>. The status holds one wrong attempt before the freeze, the submission at 30 that the
  first scroll revealed, and the frozen window is the accepted submission at 50: by the
  claim the problem is solved at 50 with one wrong attempt. The source replays the
  submissions at 30 and at 50 and records two wrong attempts, and \<open>scroll\<close> lists \<open>b\<close> with
  penalty 90, behind \<open>a\<close> with penalty 80.
\<close>

theorem scroll_reveal_refreeze:
  "run refreeze_events system_init = Some refreeze_state
   \<and> flush_scoreboard refreeze_state = refreeze_state
   \<and> lowest_team refreeze_state = ''b'' \<and> unfreeze_problem refreeze_state = ''A''
   \<and> status_of refreeze_state ''b'' ''A''
       = \<lparr>solved = False, solve_time = 0, wrong_attempts_before_first_success = 0,
          wrong_attempts_before_freeze = 1, submissions_after_freeze = 1, frozen = True\<rparr>
   \<and> spec_frozen_window refreeze_events ''b'' ''A''
       = [\<lparr>problem = ''A'', status = ''Accepted'', time = 50, before_freeze = False\<rparr>]
   \<and> spec_reveal (status_of refreeze_state ''b'' ''A'')
         (spec_frozen_window refreeze_events ''b'' ''A'')
       = \<lparr>solved = True, solve_time = 50, wrong_attempts_before_first_success = 1,
          wrong_attempts_before_freeze = 1, submissions_after_freeze = 1, frozen = False\<rparr>
   \<and> after_freeze_subs ''A'' (history_of refreeze_state ''b'')
       = [\<lparr>problem = ''A'', status = ''Wrong_Answer'', time = 30, before_freeze = False\<rparr>,
          \<lparr>problem = ''A'', status = ''Accepted'', time = 50, before_freeze = False\<rparr>]
   \<and> scroll_step refreeze_state = Some (refreeze_state_2, None)
   \<and> status_of refreeze_state_2 ''b'' ''A''
       = \<lparr>solved = True, solve_time = 50, wrong_attempts_before_first_success = 2,
          wrong_attempts_before_freeze = 1, submissions_after_freeze = 1, frozen = False\<rparr>
   \<and> scroll refreeze_state
       = Some (Inr ([''a 1 1 80 +3'', ''b 2 0 0 -1/1''], [],
                    [''a 1 1 80 +3'', ''b 2 1 90 +2''], scroll_done refreeze_state_2))"
  by code_simp

section \<open>Ranks after a ranking pass (claim C3)\<close>

text \<open>
  Claim C3. \<open>team_order\<close> never holds a name twice (lemma \<open>consistent_distinct\<close>). In such a
  state, after \<open>flush_scoreboard\<close>, and after every iteration of the scroll loop, which ends
  with the same pass, the rank fields of the teams of \<open>team_order\<close> are a bijection onto
  \<open>1..N\<close>, \<open>N\<close> the number of those teams.
\<close>

theorem ranks_bijection:
  assumes "distinct (team_order s)"
  shows "bij_betw (rank_of (flush_scoreboard s)) (set (team_order (flush_scoreboard s)))
           {1 .. int (length (team_order (flush_scoreboard s)))}
       \<and> (\<forall>s' msg. scroll_step s = Some (s', msg) \<longrightarrow>
             team_order s' = team_order s
             \<and> bij_betw (rank_of s') (set (team_order s')) {1 .. int (length (team_order s'))})"
proof -
  have a: "bij_betw (rank_of (flush_scoreboard s)) (set (team_order (flush_scoreboard s)))
           {1 .. int (length (team_order (flush_scoreboard s)))}"
    using ranks_bij[OF assms] by (simp add: team_order_flush)
  have b: "team_order s' = team_order s
           \<and> bij_betw (rank_of s') (set (team_order s')) {1 .. int (length (team_order s'))}"
    if "scroll_step s = Some (s', msg)" for s' msg
  proof -
    let ?m = "s\<lparr>teams := revealed_teams s\<rparr>"
    from that have s': "s' = flush_scoreboard ?m" by (simp add: scroll_step_SomeD)
    have "distinct (team_order ?m)" using assms by simp
    from ranks_bij[OF this] show ?thesis by (simp add: s' team_order_flush)
  qed
  from a b show ?thesis by blast
qed

text \<open>
  The first contest, where both teams have solved nothing that is visible: the pass ranks
  them \<open>1\<close> and \<open>2\<close>, before and after the reveal.
\<close>

theorem ranks_bijection_witness:
  "distinct (team_order overtake_state)
   \<and> bij_betw (rank_of (flush_scoreboard overtake_state))
       (set (team_order (flush_scoreboard overtake_state)))
       {1 .. int (length (team_order (flush_scoreboard overtake_state)))}
   \<and> (\<exists>s' msg. scroll_step overtake_state = Some (s', msg)
         \<and> bij_betw (rank_of s') (set (team_order s')) {1 .. int (length (team_order s'))})"
proof -
  let ?s' = "flush_scoreboard (overtake_state\<lparr>teams := revealed_teams overtake_state\<rparr>)"
  let ?n = "\<lparr>moved_team = ''b'', replaced_team = ''a'', new_solved = 1, new_penalty = 5\<rparr>"
  have d: "distinct (team_order overtake_state)" by code_simp
  have st: "scroll_step overtake_state = Some (?s', Some ?n)" by code_simp
  from ranks_bijection[OF d] st
  have "bij_betw (rank_of ?s') (set (team_order ?s')) {1 .. int (length (team_order ?s'))}"
    by blast
  with st have "\<exists>s' msg. scroll_step overtake_state = Some (s', msg)
         \<and> bij_betw (rank_of s') (set (team_order s')) {1 .. int (length (team_order s'))}"
    by blast
  with d ranks_bijection[OF d] show ?thesis by blast
qed

section \<open>Ranks during a scroll (claim C4)\<close>

text \<open>
  Claim C4, as the spec states it: during a scroll no team's rank ever becomes numerically
  larger from one iteration to the next. In the first contest the scroll starts from ranks
  \<open>a\<close> 1 and \<open>b\<close> 2, which a ranking pass leaves as they are; its one iteration reveals the
  accepted submission of \<open>b\<close>, and the rank of \<open>a\<close> goes from 1 to 2.
\<close>

theorem scroll_rank_worsens_counterexample:
  "run overtake_events system_init = Some overtake_state
   \<and> is_frozen overtake_state \<and> flush_scoreboard overtake_state = overtake_state
   \<and> scroll_step overtake_state
       = Some (overtake_state_2,
               Some \<lparr>moved_team = ''b'', replaced_team = ''a'', new_solved = 1, new_penalty = 5\<rparr>)
   \<and> rank_of overtake_state ''a'' = 1 \<and> rank_of overtake_state_2 ''a'' = 2"
  by code_simp

text \<open>
  Claim C4, amended: in an iteration of the scroll loop, the rank of the revealed team never
  becomes numerically larger, and the rank of every other team stays or grows by one. This
  holds in every consistent state with current rank fields, and the iteration leaves the
  rank fields current for the next one.
\<close>

theorem scroll_rank_change:
  assumes "consistent s" "ranks_current s" "scroll_step s = Some (s', msg)"
  shows "rank_of s' (lowest_team s) \<le> rank_of s (lowest_team s)
       \<and> (\<forall>n\<in>set (team_order s). n \<noteq> lowest_team s \<longrightarrow>
             rank_of s' n = rank_of s n \<or> rank_of s' n = rank_of s n + 1)
       \<and> ranks_current s'"
proof -
  from assms(1) have d: "distinct (team_order s)" by (simp add: consistent_def)
  from assms(3) have "lowest_team s \<noteq> []" by (simp add: scroll_step_SomeD)
  then have "lowest_team s \<in> set (team_order s)" by (simp add: lowest_team_in)
  with assms(1) have sk: "sorted_keys (problems (team_at (teams s) (lowest_team s)))"
    by (simp add: consistent_def)
  from scroll_step_rank_le[OF d assms(2,3) sk] scroll_step_rank_other[OF d assms(2,3) sk]
    scroll_step_ranks_current[OF d assms(3)]
  show ?thesis by blast
qed

text \<open>
  The first contest again: \<open>b\<close> goes from rank 2 to 1 and \<open>a\<close> from 1 to 2.
\<close>

theorem scroll_rank_change_witness:
  "consistent overtake_state \<and> ranks_current overtake_state
   \<and> scroll_step overtake_state
       = Some (overtake_state_2,
               Some \<lparr>moved_team = ''b'', replaced_team = ''a'', new_solved = 1, new_penalty = 5\<rparr>)
   \<and> lowest_team overtake_state = ''b'' \<and> ''a'' \<in> set (team_order overtake_state)
   \<and> rank_of overtake_state_2 ''b'' \<le> rank_of overtake_state ''b''
   \<and> (rank_of overtake_state_2 ''a'' = rank_of overtake_state ''a''
       \<or> rank_of overtake_state_2 ''a'' = rank_of overtake_state ''a'' + 1)
   \<and> ranks_current overtake_state_2"
proof -
  let ?n = "\<lparr>moved_team = ''b'', replaced_team = ''a'', new_solved = 1, new_penalty = 5\<rparr>"
  have c: "consistent overtake_state" and r: "ranks_current overtake_state" by code_simp+
  have s: "scroll_step overtake_state = Some (overtake_state_2, Some ?n)" by code_simp
  have L: "lowest_team overtake_state = ''b''" by code_simp
  have a: "''a'' \<in> set (team_order overtake_state)" by code_simp
  have ne: "''a'' \<noteq> lowest_team overtake_state" by (simp add: L)
  note t = scroll_rank_change[OF c r s]
  from t have 1: "rank_of overtake_state_2 ''b'' \<le> rank_of overtake_state ''b''"
    unfolding L by blast
  from t a ne have 2: "rank_of overtake_state_2 ''a'' = rank_of overtake_state ''a''
       \<or> rank_of overtake_state_2 ''a'' = rank_of overtake_state ''a'' + 1"
    by blast
  from t have 3: "ranks_current overtake_state_2" by blast
  from c r s L a 1 2 3 show ?thesis by blast
qed

section \<open>The rank-change notification (claim C5)\<close>

text \<open>
  Claim C5. Take an iteration of the scroll loop that starts with current rank fields, in a
  state whose \<open>team_order\<close> has no duplicate, and let \<open>L\<close> be the team it reveals. The
  iteration prints a notification exactly when the rank of \<open>L\<close> after its ranking pass is
  smaller than before. The notification names \<open>L\<close>; the one team of \<open>team_order\<close>, another
  than \<open>L\<close>, whose rank before the iteration is the rank of \<open>L\<close> after it; and the solved
  count and penalty time of \<open>L\<close> after the iteration, computed without the frozen results.
\<close>

theorem scroll_notification:
  assumes "distinct (team_order s)" "ranks_current s" "scroll_step s = Some (s', msg)"
  shows "(msg \<noteq> None \<longleftrightarrow> rank_of s' (lowest_team s) < rank_of s (lowest_team s))
       \<and> (\<forall>n. msg = Some n \<longrightarrow>
             moved_team n = lowest_team s
             \<and> replaced_team n \<in> set (team_order s) \<and> replaced_team n \<noteq> lowest_team s
             \<and> rank_of s (replaced_team n) = rank_of s' (lowest_team s)
             \<and> (\<forall>x\<in>set (team_order s).
                   rank_of s x = rank_of s' (lowest_team s) \<longrightarrow> x = replaced_team n)
             \<and> new_solved n
                 = solved_count (calculate_team_stats (team_at (teams s') (lowest_team s)) False)
             \<and> new_penalty n
                 = penalty_time (calculate_team_stats (team_at (teams s') (lowest_team s)) False))"
proof -
  let ?L = "lowest_team s" and ?O = "set (team_order s)"
  let ?m = "s\<lparr>teams := revealed_teams s\<rparr>"
  let ?old = "old_rankings_of (revealed_teams s) (sorted_teams s)"
  let ?P = "\<lambda>n. map_at 0 ?old n = rank_of s' ?L \<and> n \<noteq> ?L"
  let ?st = "calculate_team_stats (team_at (teams s') ?L) False"
  from assms(3) have Lne: "?L \<noteq> []" and s': "s' = flush_scoreboard ?m"
    by (simp_all add: scroll_step_SomeD)
  from Lne have L: "?L \<in> ?O" by (simp add: lowest_team_in)
  let ?X = "if rank_of s' ?L < rank_of s ?L
            then Some \<lparr>moved_team = ?L,
                       replaced_team = (case find ?P (sorted_teams s) of
                                          None \<Rightarrow> [] | Some n \<Rightarrow> n),
                       new_solved = solved_count ?st, new_penalty = penalty_time ?st\<rparr>
            else None"
  have "scroll_step s = Some (s', ?X)"
    unfolding s' using Lne by (simp add: scroll_step_def Let_def rank_of_def)
  with assms(3) have "Some (s', msg) = Some (s', ?X)" by simp
  then have msg: "msg = ?X" by simp
  have old: "map_at 0 ?old n = rank_of s n" if "n \<in> ?O" for n
    using that by (simp add: old_rankings_at set_sorted_teams revealed_rank)
  have first: "msg \<noteq> None \<longleftrightarrow> rank_of s' ?L < rank_of s ?L"
    by (simp add: msg)
  have second: "moved_team n = ?L \<and> replaced_team n \<in> ?O \<and> replaced_team n \<noteq> ?L
       \<and> rank_of s (replaced_team n) = rank_of s' ?L
       \<and> (\<forall>x\<in>?O. rank_of s x = rank_of s' ?L \<longrightarrow> x = replaced_team n)
       \<and> new_solved n = solved_count ?st \<and> new_penalty n = penalty_time ?st"
    if some: "msg = Some n" for n
  proof -
    from some msg have less: "rank_of s' ?L < rank_of s ?L" by (simp split: if_splits)
    with some msg have n: "n = \<lparr>moved_team = ?L,
                               replaced_team = (case find ?P (sorted_teams s) of
                                                  None \<Rightarrow> [] | Some n \<Rightarrow> n),
                               new_solved = solved_count ?st, new_penalty = penalty_time ?st\<rparr>"
      by simp
    have d': "distinct (team_order ?m)" using assms(1) by simp
    from ranks_bij[OF d'] L have "rank_of s' ?L \<in> {1 .. int (length (team_order s))}"
      unfolding s' bij_betw_def by auto
    moreover from ranks_bij[OF assms(1)]
    have "rank_of (flush_scoreboard s) ` ?O = {1 .. int (length (team_order s))}"
      unfolding bij_betw_def by blast
    ultimately have "rank_of s' ?L \<in> rank_of (flush_scoreboard s) ` ?O" by simp
    then obtain x where x: "x \<in> ?O" "rank_of (flush_scoreboard s) x = rank_of s' ?L"
      by (auto simp: image_iff)
    from x assms(2) have rx: "rank_of s x = rank_of s' ?L" by (simp add: ranks_current_def)
    with less have "x \<noteq> ?L" by auto
    with rx x(1) old[OF x(1)] have Px: "?P x" and xin: "x \<in> set (sorted_teams s)"
      by (simp_all add: set_sorted_teams)
    obtain y where y: "find ?P (sorted_teams s) = Some y"
    proof (cases "find ?P (sorted_teams s)")
      case None
      from find_NoneD[OF None xin] Px show ?thesis by blast
    next
      case (Some y)
      with that show ?thesis by blast
    qed
    from find_SomeD[OF y] have Py: "?P y" and yin: "y \<in> ?O" by (simp_all add: set_sorted_teams)
    from Py old[OF yin] have ry: "rank_of s y = rank_of s' ?L" and "y \<noteq> ?L" by simp_all
    have uniq: "\<forall>z\<in>?O. rank_of s z = rank_of s' ?L \<longrightarrow> z = y"
    proof (intro ballI impI)
      fix z assume z: "z \<in> ?O" "rank_of s z = rank_of s' ?L"
      from ranks_bij[OF assms(1)] have inj: "inj_on (rank_of (flush_scoreboard s)) ?O"
        unfolding bij_betw_def by blast
      from z ry yin assms(2)
      have "rank_of (flush_scoreboard s) z = rank_of (flush_scoreboard s) y"
        by (simp add: ranks_current_def)
      from inj_onD[OF inj this z(1) yin] show "z = y" .
    qed
    from n y have rep: "replaced_team n = y" by simp
    from n have fields: "moved_team n = ?L" "new_solved n = solved_count ?st"
      "new_penalty n = penalty_time ?st" by simp_all
    from fields yin \<open>y \<noteq> ?L\<close> ry uniq show ?thesis unfolding rep by blast
  qed
  from first second show ?thesis by blast
qed

text \<open>
  In the first contest \<open>b\<close> moves from rank 2 to rank 1, which \<open>a\<close> held, with one problem
  solved and penalty 5. In the second contest the reveal of \<open>b\<close> leaves its rank at 2 and
  nothing is printed.
\<close>

theorem scroll_notification_witness:
  "distinct (team_order overtake_state) \<and> ranks_current overtake_state
   \<and> scroll_step overtake_state
       = Some (overtake_state_2,
               Some \<lparr>moved_team = ''b'', replaced_team = ''a'', new_solved = 1, new_penalty = 5\<rparr>)
   \<and> rank_of overtake_state_2 (lowest_team overtake_state)
       < rank_of overtake_state (lowest_team overtake_state)
   \<and> rank_of overtake_state ''a'' = rank_of overtake_state_2 (lowest_team overtake_state)
   \<and> distinct (team_order replay_state) \<and> ranks_current replay_state
   \<and> scroll_step replay_state = Some (replay_state_2, None)
   \<and> \<not> rank_of replay_state_2 (lowest_team replay_state)
         < rank_of replay_state (lowest_team replay_state)"
proof -
  let ?n = "\<lparr>moved_team = ''b'', replaced_team = ''a'', new_solved = 1, new_penalty = 5\<rparr>"
  have d1: "distinct (team_order overtake_state)" and r1: "ranks_current overtake_state"
    by code_simp+
  have s1: "scroll_step overtake_state = Some (overtake_state_2, Some ?n)" by code_simp
  have d2: "distinct (team_order replay_state)" and r2: "ranks_current replay_state"
    by code_simp+
  have s2: "scroll_step replay_state = Some (replay_state_2, None)" by code_simp
  note t1 = scroll_notification[OF d1 r1 s1]
  note t2 = scroll_notification[OF d2 r2 s2]
  from t1 have a: "rank_of overtake_state_2 (lowest_team overtake_state)
       < rank_of overtake_state (lowest_team overtake_state)"
    by blast
  from t1 have "rank_of overtake_state (replaced_team ?n)
                  = rank_of overtake_state_2 (lowest_team overtake_state)"
    by blast
  then have b: "rank_of overtake_state ''a'' = rank_of overtake_state_2 (lowest_team overtake_state)"
    by simp
  from t2 have c: "\<not> rank_of replay_state_2 (lowest_team replay_state)
         < rank_of replay_state (lowest_team replay_state)"
    by blast
  from d1 r1 s1 a b d2 r2 s2 c show ?thesis by blast
qed

section \<open>Submissions (claim C6)\<close>

text \<open>
  Claim C6. For every \<open>submit(problem, team, verdict, time)\<close>, with \<open>ps\<close> the status
  \<open>teams[team].problems[problem]\<close> before the call (the default one when the team had none):
  the submission is appended to the team's history in every case; if \<open>ps\<close> is solved, no
  status of the team changes, in either mode; if the board is frozen and \<open>ps\<close> is unsolved,
  the status becomes \<open>ps\<close> with the frozen flag set and the count of submissions after the
  freeze one higher, so that the solved flag, the solve time and both wrong-attempt counts
  stay; if the board is not frozen and \<open>ps\<close> is unsolved, an \<open>Accepted\<close> verdict gives \<open>ps\<close> with
  solved set, the solve time equal to the time of the submission and the wrong-attempt count
  equal to the wrong attempts before the freeze, and any other verdict gives \<open>ps\<close> with the
  wrong attempts before the freeze one higher.
\<close>

theorem submit_effect:
  "history_of (submit p tn st tm s) tn
     = history_of s tn @ [\<lparr>problem = p, status = st, time = tm, before_freeze = \<not> is_frozen s\<rparr>]
   \<and> (solved (status_of s tn p) \<longrightarrow>
        (\<forall>q. status_of (submit p tn st tm s) tn q = status_of s tn q))
   \<and> (is_frozen s \<and> \<not> solved (status_of s tn p) \<longrightarrow>
        status_of (submit p tn st tm s) tn p
          = (status_of s tn p)\<lparr>frozen := True,
               submissions_after_freeze := submissions_after_freeze (status_of s tn p) + 1\<rparr>)
   \<and> (\<not> is_frozen s \<and> \<not> solved (status_of s tn p) \<and> st = ''Accepted'' \<longrightarrow>
        status_of (submit p tn st tm s) tn p
          = (status_of s tn p)\<lparr>solved := True, solve_time := tm,
               wrong_attempts_before_first_success :=
                 wrong_attempts_before_freeze (status_of s tn p)\<rparr>)
   \<and> (\<not> is_frozen s \<and> \<not> solved (status_of s tn p) \<and> st \<noteq> ''Accepted'' \<longrightarrow>
        status_of (submit p tn st tm s) tn p
          = (status_of s tn p)\<lparr>wrong_attempts_before_freeze :=
               wrong_attempts_before_freeze (status_of s tn p) + 1\<rparr>)"
  by (simp add: submit_def Let_def history_of_def status_of_def map_at_map_set submit_status_def)

text \<open>
  The four cases at work: in the frozen second contest, \<open>b\<close> submits to \<open>B\<close> (unsolved) and
  \<open>a\<close> to \<open>A\<close> (solved); before any command, a team submits a rejected and an accepted
  solution.
\<close>

theorem submit_effect_witness:
  "(is_frozen replay_state \<and> \<not> solved (status_of replay_state ''b'' ''B'')
      \<and> status_of (submit ''B'' ''b'' ''Accepted'' 60 replay_state) ''b'' ''B''
          = (status_of replay_state ''b'' ''B'')\<lparr>frozen := True,
               submissions_after_freeze :=
                 submissions_after_freeze (status_of replay_state ''b'' ''B'') + 1\<rparr>)
   \<and> (solved (status_of replay_state ''a'' ''A'')
      \<and> (\<forall>q. status_of (submit ''A'' ''a'' ''Accepted'' 60 replay_state) ''a'' q
               = status_of replay_state ''a'' q))
   \<and> (\<not> is_frozen system_init \<and> \<not> solved (status_of system_init ''a'' ''A'')
      \<and> status_of (submit ''A'' ''a'' ''Accepted'' 7 system_init) ''a'' ''A''
          = (status_of system_init ''a'' ''A'')\<lparr>solved := True, solve_time := 7,
               wrong_attempts_before_first_success :=
                 wrong_attempts_before_freeze (status_of system_init ''a'' ''A'')\<rparr>)
   \<and> (\<not> is_frozen system_init \<and> \<not> solved (status_of system_init ''a'' ''A'')
      \<and> ''Wrong_Answer'' \<noteq> ''Accepted''
      \<and> status_of (submit ''A'' ''a'' ''Wrong_Answer'' 7 system_init) ''a'' ''A''
          = (status_of system_init ''a'' ''A'')\<lparr>wrong_attempts_before_freeze :=
               wrong_attempts_before_freeze (status_of system_init ''a'' ''A'') + 1\<rparr>)"
proof -
  have f: "is_frozen replay_state" by code_simp
  have u: "\<not> solved (status_of replay_state ''b'' ''B'')" by code_simp
  have v: "solved (status_of replay_state ''a'' ''A'')" by code_simp
  have g: "\<not> is_frozen system_init" by code_simp
  have w: "\<not> solved (status_of system_init ''a'' ''A'')" by code_simp
  have d: "''Wrong_Answer'' \<noteq> ''Accepted''" by simp
  from f u submit_effect[of "''B''" "''b''" "''Accepted''" 60 replay_state]
  have c1: "status_of (submit ''B'' ''b'' ''Accepted'' 60 replay_state) ''b'' ''B''
          = (status_of replay_state ''b'' ''B'')\<lparr>frozen := True,
               submissions_after_freeze :=
                 submissions_after_freeze (status_of replay_state ''b'' ''B'') + 1\<rparr>"
    by blast
  from v submit_effect[of "''A''" "''a''" "''Accepted''" 60 replay_state]
  have c2: "\<forall>q. status_of (submit ''A'' ''a'' ''Accepted'' 60 replay_state) ''a'' q
               = status_of replay_state ''a'' q"
    by blast
  from g w submit_effect[of "''A''" "''a''" "''Accepted''" 7 system_init]
  have c3: "status_of (submit ''A'' ''a'' ''Accepted'' 7 system_init) ''a'' ''A''
          = (status_of system_init ''a'' ''A'')\<lparr>solved := True, solve_time := 7,
               wrong_attempts_before_first_success :=
                 wrong_attempts_before_freeze (status_of system_init ''a'' ''A'')\<rparr>"
    by blast
  from g w d submit_effect[of "''A''" "''a''" "''Wrong_Answer''" 7 system_init]
  have c4: "status_of (submit ''A'' ''a'' ''Wrong_Answer'' 7 system_init) ''a'' ''A''
          = (status_of system_init ''a'' ''A'')\<lparr>wrong_attempts_before_freeze :=
               wrong_attempts_before_freeze (status_of system_init ''a'' ''A'') + 1\<rparr>"
    by blast
  from f u v g w d c1 c2 c3 c4 show ?thesis by blast
qed

section \<open>\<open>scroll\<close> terminates (claim C7)\<close>

text \<open>
  Claim C7. Take a consistent state, as every state reached by validated commands is (lemma
  \<open>run_consistent\<close>), in which the board is frozen. Then \<open>scroll\<close> returns: after its ranking
  pass the loop makes as many iterations as the registered teams have frozen statuses and
  reaches its \<open>break\<close>; \<open>scroll\<close> ends with the freeze mode cleared, every count of
  submissions after the freeze at zero and no frozen status left. Each iteration, of this
  loop or from any consistent state, lowers the number of frozen statuses by exactly one,
  sets no frozen flag, and leaves the state consistent.
\<close>

theorem scroll_terminates:
  assumes "consistent s" "is_frozen s"
  shows "(\<exists>s2 msgs.
            scroll_iterate (frozen_total s) (flush_scoreboard s) = Some s2
            \<and> scroll s = Some (Inr (print_scoreboard (flush_scoreboard s), msgs,
                                     print_scoreboard s2, scroll_done s2))
            \<and> \<not> is_frozen (scroll_done s2)
            \<and> (\<forall>(n, t)\<in>set (teams (scroll_done s2)).
                  \<forall>(p, ps)\<in>set (problems t). submissions_after_freeze ps = 0)
            \<and> frozen_total (scroll_done s2) = 0
            \<and> consistent (scroll_done s2))
       \<and> (\<forall>s' msg. scroll_step s = Some (s', msg) \<longrightarrow>
             frozen_total s' + 1 = frozen_total s
             \<and> (\<forall>n p. frozen (status_of s' n p) \<longrightarrow> frozen (status_of s n p))
             \<and> consistent s' \<and> is_frozen s')"
proof -
  let ?s1 = "flush_scoreboard s"
  from scroll_result[OF assms] obtain s2 msgs where
    r: "scroll_iterate (frozen_total s) ?s1 = Some s2"
      "scroll s = Some (Inr (print_scoreboard ?s1, msgs, print_scoreboard s2, scroll_done s2))"
      "frozen_total (scroll_done s2) = 0" "consistent (scroll_done s2)"
    by blast
  have nf: "\<not> is_frozen (scroll_done s2)" by (simp add: scroll_done_def)
  from r nf scroll_done_counters[of s2]
  have first: "\<exists>s2 msgs.
            scroll_iterate (frozen_total s) ?s1 = Some s2
            \<and> scroll s = Some (Inr (print_scoreboard ?s1, msgs, print_scoreboard s2, scroll_done s2))
            \<and> \<not> is_frozen (scroll_done s2)
            \<and> (\<forall>(n, t)\<in>set (teams (scroll_done s2)).
                  \<forall>(p, ps)\<in>set (problems t). submissions_after_freeze ps = 0)
            \<and> frozen_total (scroll_done s2) = 0
            \<and> consistent (scroll_done s2)"
    by blast
  have second: "frozen_total s' + 1 = frozen_total s
             \<and> (\<forall>n p. frozen (status_of s' n p) \<longrightarrow> frozen (status_of s n p))
             \<and> consistent s' \<and> is_frozen s'"
    if "scroll_step s = Some (s', msg)" for s' msg
    using consistent_step[OF assms(1) that] assms(2) by blast
  from first second show ?thesis by blast
qed

text \<open>
  The second contest: two frozen statuses, two iterations, of which the first reveals \<open>A\<close> of
  \<open>b\<close>.
\<close>

theorem scroll_terminates_witness:
  "consistent replay_state \<and> is_frozen replay_state \<and> frozen_total replay_state = 2
   \<and> (\<exists>s2 msgs.
         scroll_iterate (frozen_total replay_state) (flush_scoreboard replay_state) = Some s2
         \<and> scroll replay_state
             = Some (Inr (print_scoreboard (flush_scoreboard replay_state), msgs,
                          print_scoreboard s2, scroll_done s2))
         \<and> \<not> is_frozen (scroll_done s2)
         \<and> (\<forall>(n, t)\<in>set (teams (scroll_done s2)).
               \<forall>(p, ps)\<in>set (problems t). submissions_after_freeze ps = 0)
         \<and> frozen_total (scroll_done s2) = 0
         \<and> consistent (scroll_done s2))
   \<and> scroll_step replay_state = Some (replay_state_2, None)
   \<and> frozen_total replay_state_2 + 1 = frozen_total replay_state
   \<and> consistent replay_state_2"
proof -
  have c: "consistent replay_state" and f: "is_frozen replay_state" by code_simp+
  have k: "frozen_total replay_state = 2" by code_simp
  have st: "scroll_step replay_state = Some (replay_state_2, None)" by code_simp
  note t = scroll_terminates[OF c f]
  from t st have 1: "frozen_total replay_state_2 + 1 = frozen_total replay_state"
    and 2: "consistent replay_state_2" by blast+
  from c f k st 1 2 t show ?thesis by blast
qed

section \<open>The submission query (claim C8)\<close>

text \<open>
  Claim C8. In a consistent state, where the registered teams are the keys of the registry,
  \<open>query_submission(team, problem, status)\<close> fails with the cannot-find-the-team error when
  the team is not registered. Otherwise it returns the entry \<open>sub\<close> of the team's history
  exactly when \<open>sub\<close> matches both filters and no entry appended after it does, a filter
  \<open>ALL\<close> matching anything; it reports that there is no submission exactly when no entry
  matches, in particular when the history is empty.
\<close>

theorem query_submission_most_recent:
  assumes "consistent s"
  shows "(tn \<notin> set (team_order s) \<longrightarrow> query_submission tn p st s = Inl SubmissionNoTeam)
   \<and> (tn \<in> set (team_order s) \<longrightarrow>
        (\<forall>sub. query_submission tn p st s = Inr (Some sub) \<longleftrightarrow>
           (\<exists>older newer. history_of s tn = older @ sub # newer
              \<and> (p = ''ALL'' \<or> problem sub = p) \<and> (st = ''ALL'' \<or> status sub = st)
              \<and> (\<forall>y\<in>set newer.
                    \<not> ((p = ''ALL'' \<or> problem y = p) \<and> (st = ''ALL'' \<or> status y = st)))))
        \<and> (query_submission tn p st s = Inr None \<longleftrightarrow>
             (\<forall>y\<in>set (history_of s tn).
                \<not> ((p = ''ALL'' \<or> problem y = p) \<and> (st = ''ALL'' \<or> status y = st))))
        \<and> (history_of s tn = [] \<longrightarrow> query_submission tn p st s = Inr None))"
proof -
  note r = consistent_registered[OF assms, of tn]
  show ?thesis
  proof (cases "tn \<in> set (team_order s)")
    case False
    with r have "map_count (teams s) tn = 0" by simp
    with False show ?thesis by (simp add: query_submission_def)
  next
    case True
    with r have "map_count (teams s) tn \<noteq> 0" by simp
    with True show ?thesis
      by (simp add: query_submission_def history_of_def find_rev_Some find_rev_None
          sub_match_iff)
  qed
qed

text \<open>
  In the second contest: the last submission of \<open>b\<close> to \<open>A\<close> is the one at time 45; team
  \<open>zed\<close> is unknown; and \<open>c\<close> has no submission.
\<close>

theorem query_submission_most_recent_witness:
  "consistent replay_state
   \<and> (''zed'' \<notin> set (team_order replay_state)
      \<and> query_submission ''zed'' ''ALL'' ''ALL'' replay_state = Inl SubmissionNoTeam)
   \<and> (''b'' \<in> set (team_order replay_state)
      \<and> query_submission ''b'' ''A'' ''ALL'' replay_state
          = Inr (Some \<lparr>problem = ''A'', status = ''Accepted'', time = 45, before_freeze = False\<rparr>)
      \<and> (\<exists>older newer.
            history_of replay_state ''b''
              = older @ \<lparr>problem = ''A'', status = ''Accepted'', time = 45,
                          before_freeze = False\<rparr> # newer
            \<and> (\<forall>y\<in>set newer.
                  \<not> ((''A'' = ''ALL'' \<or> problem y = ''A'')
                     \<and> (''ALL'' = ''ALL'' \<or> status y = ''ALL'')))))
   \<and> (''c'' \<in> set (team_order replay_state) \<and> history_of replay_state ''c'' = []
      \<and> query_submission ''c'' ''ALL'' ''ALL'' replay_state = Inr None)"
proof -
  have k: "consistent replay_state" by code_simp
  have z: "''zed'' \<notin> set (team_order replay_state)" by code_simp
  have b: "''b'' \<in> set (team_order replay_state)" by code_simp
  have q: "query_submission ''b'' ''A'' ''ALL'' replay_state
          = Inr (Some \<lparr>problem = ''A'', status = ''Accepted'', time = 45, before_freeze = False\<rparr>)"
    by code_simp
  have c: "''c'' \<in> set (team_order replay_state)" by code_simp
  have h: "history_of replay_state ''c'' = []" by code_simp
  from z query_submission_most_recent[OF k, of "''zed''" "''ALL''" "''ALL''"]
  have c1: "query_submission ''zed'' ''ALL'' ''ALL'' replay_state = Inl SubmissionNoTeam"
    by blast
  from b q query_submission_most_recent[OF k, of "''b''" "''A''" "''ALL''"]
  have c2: "\<exists>older newer.
            history_of replay_state ''b''
              = older @ \<lparr>problem = ''A'', status = ''Accepted'', time = 45,
                          before_freeze = False\<rparr> # newer
            \<and> (\<forall>y\<in>set newer.
                  \<not> ((''A'' = ''ALL'' \<or> problem y = ''A'')
                     \<and> (''ALL'' = ''ALL'' \<or> status y = ''ALL'')))"
    by blast
  from c h query_submission_most_recent[OF k, of "''c''" "''ALL''" "''ALL''"]
  have c3: "query_submission ''c'' ''ALL'' ''ALL'' replay_state = Inr None"
    by blast
  from k z b q c h c1 c2 c3 show ?thesis by blast
qed

section \<open>The cell of a frozen problem (claim C9)\<close>

text \<open>
  Claim C9, as the spec states it: the cell of a problem whose frozen result is hidden shows
  the wrong attempts before the freeze \<open>N\<close>, a slash and the submissions after the freeze
  \<open>M\<close>, with nothing before the slash when \<open>N\<close> is \<open>0\<close>. The source prints the number in
  every case and only drops the minus sign when \<open>N\<close> is \<open>0\<close>: in the first contest, where the
  one submission of \<open>b\<close> to \<open>A\<close> came after the freeze, the cell is \<open>0/1\<close>, not \<open>/1\<close>.
\<close>

theorem print_cell_frozen_zero_counterexample:
  "frozen (status_of overtake_state ''b'' ''A'')
   \<and> wrong_attempts_before_freeze (status_of overtake_state ''b'' ''A'') = 0
   \<and> submissions_after_freeze (status_of overtake_state ''b'' ''A'') = 1
   \<and> print_cell (problems (team_at (teams overtake_state) ''b'')) ''A'' = ''0/1''
   \<and> print_cell (problems (team_at (teams overtake_state) ''b'')) ''A'' \<noteq> ''/1''
   \<and> print_scoreboard overtake_state = [''a 1 0 0 . .'', ''b 2 0 0 0/1 .'']"
  by code_simp

text \<open>
  Claim C9, amended: the cell of a frozen problem is \<open>0/M\<close> when there was no wrong attempt
  before the freeze and \<open>-N/M\<close> when there were \<open>N\<close>, both numbers in decimal.
\<close>

theorem print_cell_frozen:
  "map_of P pname = Some ps \<Longrightarrow> frozen ps \<Longrightarrow>
   print_cell P pname =
     (if wrong_attempts_before_freeze ps = 0
      then ''0/'' @ show_int (submissions_after_freeze ps)
      else ''-'' @ show_int (wrong_attempts_before_freeze ps) @ ''/''
           @ show_int (submissions_after_freeze ps))"
  by (simp add: print_cell_def map_count_def map_at_def show_int_0)

text \<open>The cells \<open>0/1\<close> of team \<open>a\<close> and \<open>-1/3\<close> of team \<open>b\<close> in the second contest.\<close>

theorem print_cell_frozen_witness:
  "print_cell (problems (team_at (teams replay_state) ''a'')) ''B'' = ''0/1''
   \<and> print_cell (problems (team_at (teams replay_state) ''b'')) ''A'' = ''-1/3''"
proof -
  let ?Pa = "problems (team_at (teams replay_state) ''a'')"
  let ?Pb = "problems (team_at (teams replay_state) ''b'')"
  let ?a = "\<lparr>solved = False, solve_time = 0, wrong_attempts_before_first_success = 0,
             wrong_attempts_before_freeze = 0, submissions_after_freeze = 1, frozen = True\<rparr>"
  let ?b = "\<lparr>solved = False, solve_time = 0, wrong_attempts_before_first_success = 0,
             wrong_attempts_before_freeze = 1, submissions_after_freeze = 3, frozen = True\<rparr>"
  have a: "map_of ?Pa ''B'' = Some ?a" by code_simp
  have b: "map_of ?Pb ''A'' = Some ?b" by code_simp
  have fa: "frozen ?a" and fb: "frozen ?b" by simp_all
  have one: "show_int 1 = ''1''" and three: "show_int 3 = ''3''" by code_simp+
  from print_cell_frozen[OF a fa] one have ca: "print_cell ?Pa ''B'' = ''0/1''" by simp
  from print_cell_frozen[OF b fb] one three have cb: "print_cell ?Pb ''A'' = ''-1/3''" by simp
  from ca cb show ?thesis by (rule conjI)
qed

section \<open>A submission by a team that was never registered (claim C10)\<close>

text \<open>
  Claim C10. When \<open>submit\<close> is called with a team name that is neither in the registry nor in
  \<open>team_order\<close>, the access \<open>teams[team_name]\<close> creates a default-constructed record under
  that name, which receives the submission; \<open>team_order\<close> stays as it was. A ranking query on
  that name, which failed before the call, succeeds after it and reports rank \<open>0\<close>, also
  after a ranking pass. The state after the call is not consistent: the call is outside the
  validated input.
\<close>

theorem submit_unregistered_team:
  assumes "map_count (teams s) tn = 0" "tn \<notin> set (team_order s)"
  shows "query_ranking tn s = Inl RankingNoTeam
       \<and> map_count (teams (submit p tn st tm s)) tn = 1
       \<and> team_at (teams (submit p tn st tm s)) tn
           = Team_init\<lparr>submissions :=
                          [\<lparr>problem = p, status = st, time = tm, before_freeze = \<not> is_frozen s\<rparr>],
                       problems := [(p, submit_status (is_frozen s) st tm ProblemStatus_init)]\<rparr>
       \<and> team_order (submit p tn st tm s) = team_order s
       \<and> query_ranking tn (submit p tn st tm s) = Inr (is_frozen s, 0)
       \<and> query_ranking tn (flush_scoreboard (submit p tn st tm s)) = Inr (is_frozen s, 0)
       \<and> \<not> consistent (submit p tn st tm s)"
proof -
  let ?s' = "submit p tn st tm s"
  let ?t = "Team_init\<lparr>submissions :=
                          [\<lparr>problem = p, status = st, time = tm, before_freeze = \<not> is_frozen s\<rparr>],
                       problems := [(p, submit_status (is_frozen s) st tm ProblemStatus_init)]\<rparr>"
  have none: "map_of (teams s) tn = None"
    using assms(1) by (simp add: map_count_def split: option.splits)
  then have at: "team_at (teams s) tn = Team_init" by (simp add: map_at_def)
  have st: "status_at (problems Team_init) p = ProblemStatus_init"
    by (simp add: Team_init_def map_at_def)
  have teams': "teams ?s' = map_set tn ?t (teams s)"
    by (simp add: submit_def Let_def at st) (simp add: Team_init_def)
  have frz: "is_frozen ?s' = is_frozen s" and ord: "team_order ?s' = team_order s"
    by (simp_all add: submit_def Let_def)
  have lk: "map_of (teams ?s') tn = Some ?t" by (simp add: teams' map_of_map_set)
  have "tn \<notin> set (sorted_teams ?s')"
    using assms(2) by (simp add: set_sorted_teams ord)
  then have lk2: "map_of (teams (flush_scoreboard ?s')) tn = Some ?t"
    by (simp add: flush_scoreboard_def assign_ranks_other lk)
  have frz2: "is_frozen (flush_scoreboard ?s') = is_frozen s"
    by (simp add: flush_scoreboard_def frz)
  have r0: "ranking ?t = 0" by (simp add: Team_init_def)
  have c1: "query_ranking tn s = Inl RankingNoTeam"
    using assms(1) by (simp add: query_ranking_def)
  have c2: "map_count (teams ?s') tn = 1"
    by (simp add: map_count_def lk)
  have c3: "team_at (teams ?s') tn = ?t"
    by (simp add: map_at_def lk)
  have c5: "query_ranking tn ?s' = Inr (is_frozen s, 0)"
    by (simp add: query_ranking_def c2 c3 frz r0)
  have c6: "query_ranking tn (flush_scoreboard ?s') = Inr (is_frozen s, 0)"
    by (simp add: query_ranking_def map_count_def map_at_def lk2 frz2 r0)
  have c7: "\<not> consistent ?s'"
  proof
    assume "consistent ?s'"
    from consistent_registered[OF this, of tn] c2 assms(2) show False by (simp add: ord)
  qed
  from c1 c2 c3 ord c5 c6 c7 show ?thesis by blast
qed

text \<open>In the first contest, a submission by the unknown team \<open>ghost\<close>.\<close>

theorem submit_unregistered_team_witness:
  "map_count (teams overtake_state) ''ghost'' = 0 \<and> ''ghost'' \<notin> set (team_order overtake_state)
   \<and> query_ranking ''ghost'' overtake_state = Inl RankingNoTeam
   \<and> map_count (teams (submit ''A'' ''ghost'' ''Accepted'' 9 overtake_state)) ''ghost'' = 1
   \<and> team_order (submit ''A'' ''ghost'' ''Accepted'' 9 overtake_state) = team_order overtake_state
   \<and> query_ranking ''ghost'' (submit ''A'' ''ghost'' ''Accepted'' 9 overtake_state)
       = Inr (is_frozen overtake_state, 0)
   \<and> query_ranking ''ghost'' (flush_scoreboard (submit ''A'' ''ghost'' ''Accepted'' 9 overtake_state))
       = Inr (is_frozen overtake_state, 0)
   \<and> \<not> consistent (submit ''A'' ''ghost'' ''Accepted'' 9 overtake_state)"
proof -
  have a: "map_count (teams overtake_state) ''ghost'' = 0" by code_simp
  have b: "''ghost'' \<notin> set (team_order overtake_state)" by code_simp
  from a b submit_unregistered_team[OF a b, of "''A''" "''Accepted''" 9] show ?thesis by blast
qed

end
